theory Spec2Isabelle
  imports Main "HOL-Library.Sublist" "HOL-Library.FSet"
begin

section \<open>Seed URL validation and identifier extraction\<close>

text \<open>
  The source validates the seed link with
  \<^verbatim>\<open>
  def is_valid_url(url, allowed_domains):
      try:
          result = urlparse(url)
          return all([result.scheme, result.netloc]) and
                 any(domain in result.netloc for domain in allowed_domains)
      except ValueError:
          return False
  \<close>
  and extracts the artist identifier with \<^verbatim>\<open>re.search(r'artist/(\w+)', link).group(1)\<close>.
  Strings are byte lists here, so the models below are those of the library functions on
  ASCII text.
\<close>

datatype error = Exception string

fun message :: "error \<Rightarrow> string" where
  "message (Exception m) = m"

definition ascii_lower :: "string" where
  "ascii_lower = ''abcdefghijklmnopqrstuvwxyz''"

definition ascii_upper :: "string" where
  "ascii_upper = ''ABCDEFGHIJKLMNOPQRSTUVWXYZ''"

definition ascii_digits :: "string" where
  "ascii_digits = ''0123456789''"

definition is_alpha :: "char \<Rightarrow> bool" where
  "is_alpha c = (c \<in> set (ascii_lower @ ascii_upper))"

text \<open>The characters \<^verbatim>\<open>urllib.parse\<close> admits in a scheme: letters, digits and \<^verbatim>\<open>+-.\<close>\<close>

definition scheme_char :: "char \<Rightarrow> bool" where
  "scheme_char c = (c \<in> set (ascii_lower @ ascii_upper @ ascii_digits @ ''+-.''))"

text \<open>The regular expression class \<^verbatim>\<open>\w\<close> on ASCII text.\<close>

definition word_char :: "char \<Rightarrow> bool" where
  "word_char c = (c \<in> set (ascii_lower @ ascii_upper @ ascii_digits @ ''_''))"

definition lower_char :: "char \<Rightarrow> char" where
  "lower_char c = (case map_of (zip ascii_upper ascii_lower) c of None \<Rightarrow> c | Some l \<Rightarrow> l)"

text \<open>
  The characters \<^verbatim>\<open>urllib.parse\<close> strips from the front of a URL (the C0 control characters
  and the space) and the ones it removes wherever they stand (tab, carriage return, line
  feed).
\<close>

definition c0_control_or_space :: string where
  "c0_control_or_space =
     [CHR 0x00, CHR 0x01, CHR 0x02, CHR 0x03, CHR 0x04, CHR 0x05, CHR 0x06, CHR 0x07,
      CHR 0x08, CHR 0x09, CHR 0x0A, CHR 0x0B, CHR 0x0C, CHR 0x0D, CHR 0x0E, CHR 0x0F,
      CHR 0x10, CHR 0x11, CHR 0x12, CHR 0x13, CHR 0x14, CHR 0x15, CHR 0x16, CHR 0x17,
      CHR 0x18, CHR 0x19, CHR 0x1A, CHR 0x1B, CHR 0x1C, CHR 0x1D, CHR 0x1E, CHR 0x1F,
      CHR 0x20]"

definition unsafe_url_bytes :: string where
  "unsafe_url_bytes = [CHR 0x09, CHR 0x0D, CHR 0x0A]"

text \<open>
  \<^verbatim>\<open>urlparse\<close>, restricted to the two components the validation reads. Leading control
  characters and blanks are stripped and tabs and line breaks removed. The scheme is the
  text before the first colon when it starts with a letter and consists of scheme
  characters; the network location is what follows a leading \<^verbatim>\<open>//\<close> up to the first of
  \<^verbatim>\<open>/ ? #\<close>. An unbalanced square bracket in the network location raises ValueError; the
  library's further check that a bracketed host is an IP literal is not modelled.
\<close>

definition urlparse :: "string \<Rightarrow> error + (string \<times> string)" where
  "urlparse raw =
     (let url = filter (\<lambda>c. c \<notin> set unsafe_url_bytes)
                  (dropWhile (\<lambda>c. c \<in> set c0_control_or_space) raw);
          pre = takeWhile (\<lambda>c. c \<noteq> CHR '':'') url;
          has_scheme = (length pre < length url \<and> pre \<noteq> [] \<and> is_alpha (hd pre)
                        \<and> list_all scheme_char pre);
          scheme = (if has_scheme then map lower_char pre else []);
          rest = (if has_scheme then drop (Suc (length pre)) url else url);
          netloc = (if take 2 rest = ''//''
                    then takeWhile (\<lambda>c. c \<notin> set ''/?#'') (drop 2 rest) else [])
      in if (CHR ''['' \<in> set netloc) \<noteq> (CHR '']'' \<in> set netloc)
         then Inl (Exception ''Invalid IPv6 URL'')
         else Inr (scheme, netloc))"

text \<open>Python's \<^verbatim>\<open>domain in netloc\<close> on strings: \<open>domain\<close> occurs as a contiguous run.\<close>

fun str_contains :: "string \<Rightarrow> string \<Rightarrow> bool" where
  "str_contains d [] = (d = [])"
| "str_contains d (c # cs) = (take (length d) (c # cs) = d \<or> str_contains d cs)"

definition is_valid_url :: "string \<Rightarrow> string list \<Rightarrow> bool" where
  "is_valid_url url allowed_domains =
     (case urlparse url of
        Inl e \<Rightarrow> False
      | Inr (scheme, netloc) \<Rightarrow>
          (scheme \<noteq> [] \<and> netloc \<noteq> []) \<and> list_ex (\<lambda>domain. str_contains domain netloc) allowed_domains)"

text \<open>
  \<^verbatim>\<open>re.search(r'artist/(\w+)', link)\<close>: the leftmost position where \<^verbatim>\<open>artist/\<close> is followed by
  at least one word character; group 1 is the longest run of word characters there.
  \<open>None\<close> is the search finding nothing (the source then fails on \<^verbatim>\<open>.group\<close>).
\<close>

fun search_artist_id :: "string \<Rightarrow> string option" where
  "search_artist_id [] = None"
| "search_artist_id (c # cs) =
     (if take 7 (c # cs) = ''artist/'' \<and> takeWhile word_char (drop 7 (c # cs)) \<noteq> []
      then Some (takeWhile word_char (drop 7 (c # cs)))
      else search_artist_id cs)"

section \<open>Data model\<close>

text \<open>
  The dictionaries the two catalog services return, with the keys the source reads:
  \<^verbatim>\<open>spotify_artist['name']\<close>, \<^verbatim>\<open>['genres']\<close>; a related artist's \<^verbatim>\<open>['id']\<close>, \<^verbatim>\<open>['name']\<close>;
  a search result's \<^verbatim>\<open>['id']\<close>, \<^verbatim>\<open>['name']\<close> (the identifier in its printed form).
\<close>

record spotify_artist =
  sp_name :: string
  sp_genres :: "string list"

record related_artist =
  rel_id :: string
  rel_name :: string

record deezer_artist =
  dz_id :: string
  dz_name :: string

text \<open>
  \<^verbatim>\<open>class ArtistNode\<close>. Nodes are shared objects (the same child object is appended to its
  parent's \<^verbatim>\<open>children\<close> and put on the queue), so they live in a store and are referred to
  by address.
\<close>

record ArtistNode =
  spotify_id :: string
  name :: string
  children :: "nat list"
  depth :: int
  downloaded :: bool
  deezer_id :: "string option"

text \<open>
  What the outside world observes, in order: the callbacks the downloader fires and the
  calls it makes to its collaborators (source catalog, target catalog, external downloader).
\<close>

datatype event =
    Output string
  | Progress int string
  | ArtistFinished string bool
  | TreeUpdated "nat option"
  | Finished
  | Call_sp_artist string
  | Call_sp_related string
  | Call_dz_search string
  | Call_deemix string

text \<open>
  How one \<^verbatim>\<open>download_artist\<close> attempt goes: an exception before the subprocess is started
  (creating the directory, writing the launcher script), an exception from starting or
  awaiting the subprocess, or a normal return.
\<close>

datatype launch = Not_launched error | Launch_failed error | Completed

text \<open>
  The collaborators, as the answers they give. \<open>shuffle_picks\<close> and \<open>sample_picks\<close>
  are the choices of the random generator behind \<^verbatim>\<open>random.shuffle\<close> and \<^verbatim>\<open>random.sample\<close>.
\<close>

record services =
  sp_artist :: "string \<Rightarrow> error + spotify_artist"
  sp_artist_related_artists :: "string \<Rightarrow> error + related_artist list"
  dz_search_artist :: "string \<Rightarrow> error + deezer_artist list"
  run_deemix :: "string \<Rightarrow> deezer_artist \<Rightarrow> launch"
  shuffle_picks :: "nat list"
  sample_picks :: "nat list"

text \<open>
  \<^verbatim>\<open>class SpotifyDeezerWildChainDownloader\<close>: its configuration, its shared mutable state,
  the node store and the observable trace. The output directory, album types, retry count
  and launcher-script bookkeeping play no part in the traversal and are left out.
\<close>

record downloader =
  spotify_link :: string
  max_artists :: int
  max_concurrent :: int
  wild_branching :: bool
  wildly_different :: bool
  max_depth :: int
  related_limit :: int
  is_running :: bool
  processed_artists :: "string fset"
  artist_queue :: "nat list"
  root_node :: "nat option"
  processed_genres :: "string fset"
  store :: "nat \<Rightarrow> ArtistNode"
  next_ref :: nat
  trace :: "event list"

definition blank_node :: ArtistNode where
  "blank_node = \<lparr>spotify_id = [], name = [], children = [], depth = 0,
                  downloaded = False, deezer_id = None\<rparr>"

text \<open>\<^verbatim>\<open>__init__\<close>: running, nothing processed, empty queue, no root.\<close>

definition init :: "string \<Rightarrow> int \<Rightarrow> int \<Rightarrow> bool \<Rightarrow> bool \<Rightarrow> int \<Rightarrow> int \<Rightarrow> downloader" where
  "init link m_artists m_concurrent wild different m_depth r_limit =
     \<lparr>spotify_link = link, max_artists = m_artists, max_concurrent = m_concurrent,
      wild_branching = wild, wildly_different = different, max_depth = m_depth,
      related_limit = r_limit, is_running = True, processed_artists = {||},
      artist_queue = [], root_node = None, processed_genres = {||},
      store = (\<lambda>_. blank_node), next_ref = 0, trace = []\<rparr>"

definition emit :: "event \<Rightarrow> downloader \<Rightarrow> downloader" where
  "emit e st = st\<lparr>trace := trace st @ [e]\<rparr>"

text \<open>\<^verbatim>\<open>ArtistNode(spotify_id, name, depth)\<close>: a fresh object; its address is returned.\<close>

definition new_node :: "string \<Rightarrow> string \<Rightarrow> int \<Rightarrow> downloader \<Rightarrow> nat \<times> downloader" where
  "new_node sid nm d st =
     (next_ref st,
      st\<lparr>store := (store st)(next_ref st :=
             \<lparr>spotify_id = sid, name = nm, children = [], depth = d,
              downloaded = False, deezer_id = None\<rparr>),
         next_ref := Suc (next_ref st)\<rparr>)"

section \<open>Library operations\<close>

text \<open>Python's slice \<^verbatim>\<open>xs[:n]\<close>; a negative \<open>n\<close> counts from the end.\<close>

definition py_prefix :: "int \<Rightarrow> 'a list \<Rightarrow> 'a list" where
  "py_prefix n xs = (if 0 \<le> n then take (nat n) xs else take (length xs - nat (- n)) xs)"

text \<open>
  Sampling without replacement: each pick selects a position of what is left of the pool
  (the pick modulo the number of elements left), and the element there is taken out.
\<close>

fun sample_from :: "nat list \<Rightarrow> 'a list \<Rightarrow> nat \<Rightarrow> 'a list" where
  "sample_from picks pool 0 = []"
| "sample_from picks pool (Suc k) =
     (if pool = [] then []
      else let i = (case picks of [] \<Rightarrow> 0 | p # _ \<Rightarrow> p mod length pool)
           in pool ! i # sample_from (tl picks) (take i pool @ drop (Suc i) pool) k)"

text \<open>\<^verbatim>\<open>random.sample(pool, k)\<close> raises ValueError when \<open>k\<close> is negative or exceeds the pool.\<close>

definition random_sample :: "nat list \<Rightarrow> 'a list \<Rightarrow> int \<Rightarrow> error + 'a list" where
  "random_sample picks pool k =
     (if k < 0 \<or> int (length pool) < k
      then Inl (Exception ''Sample larger than population or is negative'')
      else Inr (sample_from picks pool (nat k)))"

text \<open>\<^verbatim>\<open>random.shuffle(xs)\<close>: a full sample of the list.\<close>

definition random_shuffle :: "nat list \<Rightarrow> 'a list \<Rightarrow> 'a list" where
  "random_shuffle picks xs = sample_from picks xs (length xs)"

section \<open>The relative-selection heuristic\<close>

text \<open>
  The loop of \<^verbatim>\<open>get_wildly_different_artists\<close>: each candidate's genres are fetched; a
  candidate with a genre not seen before is kept and its new genres are recorded; the
  loop leaves once \<open>related_limit\<close> candidates are kept. A failing lookup is logged and
  the loop goes on with the next candidate.
\<close>

fun wildly_different_loop ::
  "services \<Rightarrow> related_artist list \<Rightarrow> related_artist list \<Rightarrow> downloader
     \<Rightarrow> related_artist list \<times> downloader" where
  "wildly_different_loop env [] kept st = (kept, st)"
| "wildly_different_loop env (artist # rest) kept st =
     (let st1 = emit (Call_sp_artist (rel_id artist)) st in
      case sp_artist env (rel_id artist) of
        Inl e \<Rightarrow>
          wildly_different_loop env rest kept
            (emit (Output (''Error processing related artist '' @ rel_name artist @ '': ''
                           @ message e)) st1)
      | Inr artist_full \<Rightarrow>
          (let new_genres = fset_of_list (sp_genres artist_full) |-| processed_genres st1;
               kept1 = (if new_genres \<noteq> {||} then kept @ [artist] else kept);
               st2 = (if new_genres \<noteq> {||}
                      then st1\<lparr>processed_genres := processed_genres st1 |\<union>| new_genres\<rparr>
                      else st1)
           in if related_limit st2 \<le> int (length kept1) then (kept1, st2)
              else wildly_different_loop env rest kept1 st2))"

text \<open>
  \<^verbatim>\<open>get_wildly_different_artists\<close>: the source artist's genres are recorded first; after the
  loop a shortfall is topped up by a random sample of the candidates not kept. The sample
  is outside any \<^verbatim>\<open>try\<close>, so its ValueError would leave the function.
\<close>

definition get_wildly_different_artists ::
  "services \<Rightarrow> spotify_artist \<Rightarrow> related_artist list \<Rightarrow> downloader
     \<Rightarrow> (error + related_artist list) \<times> downloader" where
  "get_wildly_different_artists env source_artist related_artists st =
     (let st0 = st\<lparr>processed_genres :=
                     processed_genres st |\<union>| fset_of_list (sp_genres source_artist)\<rparr>;
          (kept, st1) = wildly_different_loop env related_artists [] st0
      in if int (length kept) < related_limit st1
         then (let remaining = filter (\<lambda>a. a \<notin> set kept) related_artists
               in case random_sample (sample_picks env) remaining
                         (min (int (length remaining)) (related_limit st1 - int (length kept))) of
                    Inl e \<Rightarrow> (Inl e, st1)
                  | Inr extra \<Rightarrow> (Inr (kept @ extra), st1))
         else (Inr kept, st1))"

section \<open>Processing one artist\<close>

text \<open>\<^verbatim>\<open>find_deezer_artist\<close>: the first search result, or nothing; an error is logged.\<close>

definition find_deezer_artist ::
  "services \<Rightarrow> string \<Rightarrow> downloader \<Rightarrow> deezer_artist option \<times> downloader" where
  "find_deezer_artist env artist_name st =
     (let st1 = emit (Call_dz_search artist_name) st in
      case dz_search_artist env artist_name of
        Inl e \<Rightarrow> (None, emit (Output (''Error finding Deezer artist: '' @ message e)) st1)
      | Inr [] \<Rightarrow> (None, st1)
      | Inr (d # _) \<Rightarrow> (Some d, st1))"

text \<open>\<^verbatim>\<open>download_artist\<close>: true when the external downloader returned, false on any error.\<close>

definition download_artist ::
  "services \<Rightarrow> deezer_artist \<Rightarrow> nat \<Rightarrow> downloader \<Rightarrow> bool \<times> downloader" where
  "download_artist env deezer_artist node st =
     (case run_deemix env (name (store st node)) deezer_artist of
        Not_launched e \<Rightarrow>
          (False, emit (Output (''Error downloading artist '' @ dz_name deezer_artist @ '': ''
                                @ message e)) st)
      | Launch_failed e \<Rightarrow>
          (False, emit (Output (''Error downloading artist '' @ dz_name deezer_artist @ '': ''
                                @ message e))
                    (emit (Call_deemix (dz_id deezer_artist)) st))
      | Completed \<Rightarrow>
          (True, emit (Progress 100 (dz_name deezer_artist))
                   (emit (Output (''Successfully downloaded artist: '' @ dz_name deezer_artist))
                      (emit (Call_deemix (dz_id deezer_artist)) st))))"

text \<open>
  The section of \<^verbatim>\<open>process_artist\<close> under the lock: refuse an identifier already processed
  and refuse when the cap is reached; otherwise record the identifier.
\<close>

definition check_and_insert :: "nat \<Rightarrow> downloader \<Rightarrow> bool \<times> downloader" where
  "check_and_insert node st =
     (if spotify_id (store st node) |\<in>| processed_artists st
         \<or> max_artists st \<le> int (fcard (processed_artists st))
      then (False, st)
      else (True, st\<lparr>processed_artists :=
                       finsert (spotify_id (store st node)) (processed_artists st)\<rparr>))"

text \<open>
  The loop creating the children: a fresh node one level below the parent, appended to
  the parent's children and put on the queue.
\<close>

fun add_children :: "nat \<Rightarrow> related_artist list \<Rightarrow> downloader \<Rightarrow> downloader" where
  "add_children node [] st = st"
| "add_children node (related # rest) st =
     (let (child_node, st1) =
            new_node (rel_id related) (rel_name related) (depth (store st node) + 1) st;
          st2 = st1\<lparr>store := (store st1)(node :=
                     (store st1 node)\<lparr>children := children (store st1 node) @ [child_node]\<rparr>)\<rparr>;
          st3 = st2\<lparr>artist_queue := artist_queue st2 @ [child_node]\<rparr>
      in add_children node rest st3)"

text \<open>
  The block of \<^verbatim>\<open>process_artist\<close> that fetches, selects and enqueues the relatives. The
  first component is the exception that leaves the block, if any.
\<close>

definition enqueue_related ::
  "services \<Rightarrow> spotify_artist \<Rightarrow> nat \<Rightarrow> downloader \<Rightarrow> error option \<times> downloader" where
  "enqueue_related env spotify_artist node st =
     (let st1 = emit (Call_sp_related (spotify_id (store st node))) st in
      case sp_artist_related_artists env (spotify_id (store st node)) of
        Inl e \<Rightarrow> (Some e, st1)
      | Inr related \<Rightarrow>
          (let shuffled = (if wild_branching st1
                           then random_shuffle (shuffle_picks env) related else related)
           in case (if wildly_different st1
                    then get_wildly_different_artists env spotify_artist shuffled st1
                    else (Inr shuffled, st1)) of
                (Inl e, st2) \<Rightarrow> (Some e, st2)
              | (Inr selected, st2) \<Rightarrow>
                  (let st3 = add_children node (py_prefix (related_limit st2) selected) st2
                   in (None, emit (TreeUpdated (root_node st3)) st3))))"

definition report_error :: "nat \<Rightarrow> error \<Rightarrow> downloader \<Rightarrow> downloader" where
  "report_error node e st =
     emit (Output (''Error processing artist '' @ name (store st node) @ '': '' @ message e)) st"

text \<open>The \<^verbatim>\<open>try\<close> block of \<^verbatim>\<open>process_artist\<close> with its handler, for a node that was admitted.\<close>

definition process_admitted :: "services \<Rightarrow> nat \<Rightarrow> downloader \<Rightarrow> downloader" where
  "process_admitted env node st =
     (let st1 = emit (Call_sp_artist (spotify_id (store st node))) st in
      case sp_artist env (spotify_id (store st node)) of
        Inl e \<Rightarrow> report_error node e st1
      | Inr spotify_artist \<Rightarrow>
          (case find_deezer_artist env (sp_name spotify_artist) st1 of
             (None, st2) \<Rightarrow>
               emit (Output (''Could not find Deezer artist for: '' @ name (store st2 node))) st2
           | (Some deezer_artist, st2) \<Rightarrow>
               (let st3 = st2\<lparr>store := (store st2)(node :=
                                (store st2 node)\<lparr>deezer_id := Some (dz_id deezer_artist)\<rparr>)\<rparr>;
                    (success, st4) = download_artist env deezer_artist node st3;
                    st5 = emit (ArtistFinished
                                  (sp_name spotify_artist @ ''|'' @ spotify_id (store st4 node)
                                   @ ''|'' @ dz_id deezer_artist) success) st4
                in if int (fcard (processed_artists st5)) < max_artists st5
                      \<and> depth (store st5 node) < max_depth st5
                   then (case enqueue_related env spotify_artist node st5 of
                           (Some e, st6) \<Rightarrow> report_error node e st6
                         | (None, st6) \<Rightarrow> st6)
                   else st5)))"

definition process_artist :: "services \<Rightarrow> nat \<Rightarrow> downloader \<Rightarrow> downloader" where
  "process_artist env node st =
     (case check_and_insert node st of
        (False, st1) \<Rightarrow> st1
      | (True, st1) \<Rightarrow> process_admitted env node st1)"

section \<open>The traversal driver\<close>

text \<open>\<^verbatim>\<open>stop\<close>: clears the cooperative flag.\<close>

definition stop :: "downloader \<Rightarrow> downloader" where
  "stop st = st\<lparr>is_running := False\<rparr>"

text \<open>
  One batch: the workers of a batch run concurrently in the source; here they run one
  after the other in submission order, which is one of the schedules of the thread pool.
\<close>

fun process_batch :: "services \<Rightarrow> nat list \<Rightarrow> downloader \<Rightarrow> downloader" where
  "process_batch env [] st = st"
| "process_batch env (node # rest) st = process_batch env rest (process_artist env node st)"

text \<open>
  The \<^verbatim>\<open>while\<close> loop of \<^verbatim>\<open>run\<close>: while the queue is non-empty, the cap is not reached and the
  flag is set, take \<open>min(max_concurrent, queue size)\<close> nodes off the queue, dispatch them and
  wait for all of them. With \<open>max_concurrent \<le> 0\<close> the loop body takes nothing and the loop
  never ends; not returning is the value \<open>None\<close>.
\<close>

partial_function (option) dispatch_loop :: "services \<Rightarrow> downloader \<Rightarrow> downloader option" where
  "dispatch_loop env st =
     (if artist_queue st \<noteq> [] \<and> int (fcard (processed_artists st)) < max_artists st
         \<and> is_running st
      then dispatch_loop env
             (process_batch env
                (take (nat (min (max_concurrent st) (int (length (artist_queue st)))))
                   (artist_queue st))
                (st\<lparr>artist_queue :=
                      drop (nat (min (max_concurrent st) (int (length (artist_queue st)))))
                        (artist_queue st)\<rparr>))
      else Some st)"

declare dispatch_loop.simps [code]

text \<open>The text of the AttributeError that \<^verbatim>\<open>.group\<close> on a failed search raises.\<close>

definition none_has_no_group :: string where
  "none_has_no_group =
     [CHR 0x27] @ ''NoneType'' @ [CHR 0x27] @ '' object has no attribute ''
     @ [CHR 0x27] @ ''group'' @ [CHR 0x27]"

text \<open>The handler of \<^verbatim>\<open>run\<close>: log the error and signal the end of the run.\<close>

definition run_failed :: "error \<Rightarrow> downloader \<Rightarrow> downloader" where
  "run_failed e st = emit Finished (emit (Output (''An error occurred: '' @ message e)) st)"

text \<open>
  \<^verbatim>\<open>run\<close>: reject a link that fails validation; otherwise extract the identifier, look the
  root artist up, seed the queue, create the thread pool (which raises ValueError unless
  \<open>max_concurrent\<close> is positive), loop, and signal the end of the run.
\<close>

definition run :: "services \<Rightarrow> downloader \<Rightarrow> downloader option" where
  "run env st =
     (if \<not> is_valid_url (spotify_link st) [''open.spotify.com'']
      then Some (emit Finished
                   (emit (Output ''Invalid Spotify URL. Please provide a valid Spotify artist link.'')
                      st))
      else case search_artist_id (spotify_link st) of
             None \<Rightarrow>
               Some (run_failed (Exception none_has_no_group) st)
           | Some artist_id \<Rightarrow>
               (let st1 = emit (Call_sp_artist artist_id) st in
                case sp_artist env artist_id of
                  Inl e \<Rightarrow> Some (run_failed e st1)
                | Inr spotify_artist \<Rightarrow>
                    (let (root, st2) = new_node artist_id (sp_name spotify_artist) 0 st1;
                         st3 = emit (TreeUpdated (Some root)) (st2\<lparr>root_node := Some root\<rparr>);
                         st4 = st3\<lparr>artist_queue := artist_queue st3 @ [root]\<rparr>
                     in if max_concurrent st4 \<le> 0
                        then Some (run_failed (Exception ''max_workers must be greater than 0'') st4)
                        else (case dispatch_loop env st4 of
                                None \<Rightarrow> None
                              | Some st5 \<Rightarrow> Some (emit Finished st5)))))"

section \<open>Notions used by the properties\<close>

text \<open>
  What the work on one artist leaves alone: the configuration, the cancellation flag, the
  processed set and the root reference.
\<close>

definition worker_frame :: "downloader \<Rightarrow> downloader \<Rightarrow> bool" where
  "worker_frame st st' =
     (spotify_link st' = spotify_link st \<and> max_artists st' = max_artists st
      \<and> max_concurrent st' = max_concurrent st \<and> wild_branching st' = wild_branching st
      \<and> wildly_different st' = wildly_different st \<and> max_depth st' = max_depth st
      \<and> related_limit st' = related_limit st \<and> is_running st' = is_running st
      \<and> processed_artists st' = processed_artists st \<and> root_node st' = root_node st)"

text \<open>The processed set is within the configured cap.\<close>

definition within_cap :: "downloader \<Rightarrow> bool" where
  "within_cap st = (int (fcard (processed_artists st)) \<le> max_artists st)"

text \<open>
  A sequence of \<^verbatim>\<open>process_artist\<close> invocations, each with the answers the collaborators give
  at that time, in the order in which the invocations take the lock. \<open>winners\<close> counts the
  invocations for one identifier that pass the check.
\<close>

fun process_calls :: "(services \<times> nat) list \<Rightarrow> downloader \<Rightarrow> downloader" where
  "process_calls [] st = st"
| "process_calls ((env, node) # calls) st = process_calls calls (process_artist env node st)"

fun winners :: "string \<Rightarrow> (services \<times> nat) list \<Rightarrow> downloader \<Rightarrow> nat" where
  "winners sid [] st = 0"
| "winners sid ((env, node) # calls) st =
     (if spotify_id (store st node) = sid \<and> fst (check_and_insert node st) then 1 else 0)
     + winners sid calls (process_artist env node st)"

text \<open>
  Every node on the queue is an allocated object, and no allocated node lies deeper than
  the configured maximum. Every node is put on the queue when it is created, so the
  allocated nodes are the nodes ever enqueued.
\<close>

definition depths_bounded :: "downloader \<Rightarrow> bool" where
  "depths_bounded st =
     (list_all (\<lambda>c. c < next_ref st) (artist_queue st)
      \<and> list_all (\<lambda>a. depth (store st a) \<le> max_depth st) [0 ..< next_ref st])"

section \<open>Example data\<close>

text \<open>
  A small catalog: the root artist R has the relatives A and B, which both have the
  relative C; C has no counterpart on the target catalog and D is unknown to the source
  catalog. Every download succeeds.
\<close>

definition demo_services :: services where
  "demo_services =
     \<lparr>sp_artist = (\<lambda>i.
        if i = ''R'' then Inr \<lparr>sp_name = ''Root'', sp_genres = [''pop'']\<rparr>
        else if i = ''A'' then Inr \<lparr>sp_name = ''Aa'', sp_genres = [''rock'']\<rparr>
        else if i = ''B'' then Inr \<lparr>sp_name = ''Bb'', sp_genres = [''jazz'']\<rparr>
        else if i = ''C'' then Inr \<lparr>sp_name = ''Cc'', sp_genres = [''pop'']\<rparr>
        else Inl (Exception ''not found'')),
      sp_artist_related_artists = (\<lambda>i.
        if i = ''R'' then Inr [\<lparr>rel_id = ''A'', rel_name = ''Aa''\<rparr>,
                               \<lparr>rel_id = ''B'', rel_name = ''Bb''\<rparr>]
        else if i = ''A'' \<or> i = ''B'' then Inr [\<lparr>rel_id = ''C'', rel_name = ''Cc''\<rparr>]
        else Inr []),
      dz_search_artist = (\<lambda>n.
        if n = ''Cc'' then Inr [] else Inr [\<lparr>dz_id = ''7'', dz_name = n\<rparr>]),
      run_deemix = (\<lambda>n d. Completed),
      shuffle_picks = [], sample_picks = []\<rparr>"

text \<open>A downloader for the root R: at most 10 artists, 2 workers, depth 3, 5 relatives.\<close>

definition demo_downloader :: downloader where
  "demo_downloader = init ''https://open.spotify.com/artist/R'' 10 2 False False 3 5"

text \<open>
  A downloader capped at one artist, holding a node for A (address 0) and two nodes for B
  (addresses 1 and 2).
\<close>

definition capped_downloader :: downloader where
  "capped_downloader =
     snd (new_node ''B'' ''Bb'' 1
       (snd (new_node ''B'' ''Bb'' 1
          (snd (new_node ''A'' ''Aa'' 1
             (init ''https://open.spotify.com/artist/R'' 1 2 False False 3 5))))))"

text \<open>The demo downloader with its root node R allocated (address 0).\<close>

definition rooted_downloader :: downloader where
  "rooted_downloader = snd (new_node ''R'' ''Root'' 0 demo_downloader)"

text \<open>A downloader whose related limit is zero.\<close>

definition zero_limit_downloader :: downloader where
  "zero_limit_downloader = init ''https://open.spotify.com/artist/R'' 10 2 False True 3 0"

text \<open>
  Five candidates with the genres pop, pop, rock, jazz, pop, a downloader with related
  limit 3 that has seen the genre pop, and a random generator whose first pick is 1.
\<close>

definition genre_services :: services where
  "genre_services =
     \<lparr>sp_artist = (\<lambda>i.
        if i = ''3'' then Inr \<lparr>sp_name = ''Three'', sp_genres = [''rock'']\<rparr>
        else if i = ''4'' then Inr \<lparr>sp_name = ''Four'', sp_genres = [''jazz'']\<rparr>
        else Inr \<lparr>sp_name = ''Other'', sp_genres = [''pop'']\<rparr>),
      sp_artist_related_artists = (\<lambda>i. Inr []),
      dz_search_artist = (\<lambda>n. Inr []),
      run_deemix = (\<lambda>n d. Completed),
      shuffle_picks = [], sample_picks = [1]\<rparr>"

definition candidate :: "string \<Rightarrow> related_artist" where
  "candidate i = \<lparr>rel_id = i, rel_name = ''Artist '' @ i\<rparr>"

definition pop_downloader :: downloader where
  "pop_downloader =
     (init ''https://open.spotify.com/artist/R'' 10 2 False True 3 3)
       \<lparr>processed_genres := {|''pop''|}\<rparr>"

text \<open>The demo downloader holding nodes for the siblings A (address 0) and B (address 1).\<close>

definition siblings_downloader :: downloader where
  "siblings_downloader =
     snd (new_node ''B'' ''Bb'' 1 (snd (new_node ''A'' ''Aa'' 1 demo_downloader)))"

section \<open>What each operation leaves unchanged\<close>

lemma worker_frame_refl [simp]: "worker_frame st st"
  by (simp add: worker_frame_def)

lemma worker_frame_trans: "worker_frame st st1 \<Longrightarrow> worker_frame st1 st2 \<Longrightarrow> worker_frame st st2"
  by (simp add: worker_frame_def)

lemma emit_frame: "worker_frame st (emit e st)"
  by (simp add: worker_frame_def emit_def)

lemmas emit_kept [simp] = emit_frame [unfolded worker_frame_def]

lemma emit_fields [simp]:
  "trace (emit e st) = trace st @ [e]"
  "artist_queue (emit e st) = artist_queue st"
  "store (emit e st) = store st"
  "next_ref (emit e st) = next_ref st"
  "processed_genres (emit e st) = processed_genres st"
  by (simp_all add: emit_def)

lemma new_node_frame: "worker_frame st (snd (new_node sid nm d st))"
  by (simp add: worker_frame_def new_node_def)

lemmas new_node_kept [simp] = new_node_frame [unfolded worker_frame_def]

lemma new_node_fields [simp]:
  "fst (new_node sid nm d st) = next_ref st"
  "next_ref (snd (new_node sid nm d st)) = Suc (next_ref st)"
  "artist_queue (snd (new_node sid nm d st)) = artist_queue st"
  "trace (snd (new_node sid nm d st)) = trace st"
  "processed_genres (snd (new_node sid nm d st)) = processed_genres st"
  "store (snd (new_node sid nm d st)) =
     (store st)(next_ref st := \<lparr>spotify_id = sid, name = nm, children = [], depth = d,
                                downloaded = False, deezer_id = None\<rparr>)"
  by (simp_all add: new_node_def)

lemma wildly_different_loop_frame:
  "worker_frame st (snd (wildly_different_loop env rs kept st))"
proof (induction rs arbitrary: kept st)
  case Nil
  show ?case by simp
next
  case (Cons r rs)
  have step: "\<And>st1 k. worker_frame st st1 \<Longrightarrow> worker_frame st (snd (wildly_different_loop env rs k st1))"
    using Cons.IH worker_frame_trans by blast
  show ?case
    by (auto simp: Let_def split: sum.splits intro!: step) (simp_all add: worker_frame_def)
qed

lemmas wildly_different_loop_kept [simp] = wildly_different_loop_frame [unfolded worker_frame_def]

lemma wildly_different_loop_fields [simp]:
  "artist_queue (snd (wildly_different_loop env rs kept st)) = artist_queue st"
  "store (snd (wildly_different_loop env rs kept st)) = store st"
  "next_ref (snd (wildly_different_loop env rs kept st)) = next_ref st"
  by (induction rs arbitrary: kept st; simp add: Let_def split: sum.splits)+

lemma get_wildly_different_artists_frame:
  "worker_frame st (snd (get_wildly_different_artists env src rs st))"
  by (simp add: get_wildly_different_artists_def Let_def split_beta worker_frame_def
           split: sum.splits)

lemmas get_wildly_different_artists_kept [simp] =
  get_wildly_different_artists_frame [unfolded worker_frame_def]

lemma get_wildly_different_artists_fields [simp]:
  "artist_queue (snd (get_wildly_different_artists env src rs st)) = artist_queue st"
  "store (snd (get_wildly_different_artists env src rs st)) = store st"
  "next_ref (snd (get_wildly_different_artists env src rs st)) = next_ref st"
  by (simp_all add: get_wildly_different_artists_def Let_def split_beta split: sum.splits)

lemma find_deezer_artist_frame: "worker_frame st (snd (find_deezer_artist env nm st))"
  by (simp add: find_deezer_artist_def Let_def worker_frame_def split: sum.splits list.splits)

lemmas find_deezer_artist_kept [simp] = find_deezer_artist_frame [unfolded worker_frame_def]

lemma find_deezer_artist_fields [simp]:
  "artist_queue (snd (find_deezer_artist env nm st)) = artist_queue st"
  "store (snd (find_deezer_artist env nm st)) = store st"
  "next_ref (snd (find_deezer_artist env nm st)) = next_ref st"
  "processed_genres (snd (find_deezer_artist env nm st)) = processed_genres st"
  by (simp_all add: find_deezer_artist_def Let_def split: sum.splits list.splits)

lemma download_artist_frame: "worker_frame st (snd (download_artist env d node st))"
  by (simp add: download_artist_def worker_frame_def split: launch.splits)

lemmas download_artist_kept [simp] = download_artist_frame [unfolded worker_frame_def]

lemma download_artist_fields [simp]:
  "artist_queue (snd (download_artist env d node st)) = artist_queue st"
  "store (snd (download_artist env d node st)) = store st"
  "next_ref (snd (download_artist env d node st)) = next_ref st"
  "processed_genres (snd (download_artist env d node st)) = processed_genres st"
  by (simp_all add: download_artist_def split: launch.splits)

lemma add_children_frame: "worker_frame st (add_children node rs st)"
proof (induction rs arbitrary: st)
  case Nil
  show ?case by simp
next
  case (Cons r rs)
  have step: "\<And>st1. worker_frame st st1 \<Longrightarrow> worker_frame st (add_children node rs st1)"
    using Cons.IH worker_frame_trans by blast
  show ?case
    apply (simp only: add_children.simps Let_def split_beta)
    apply (rule step)
    apply (simp add: worker_frame_def)
    done
qed

lemmas add_children_kept [simp] = add_children_frame [unfolded worker_frame_def]

lemma add_children_fields [simp]:
  "trace (add_children node rs st) = trace st"
  "processed_genres (add_children node rs st) = processed_genres st"
  "next_ref (add_children node rs st) = next_ref st + length rs"
  by (induction rs arbitrary: st; simp add: Let_def split_beta)+

lemma enqueue_related_frame: "worker_frame st (snd (enqueue_related env src node st))"
  by (simp add: enqueue_related_def Let_def split_beta worker_frame_def
           split: sum.splits)

lemmas enqueue_related_kept [simp] = enqueue_related_frame [unfolded worker_frame_def]

lemma report_error_frame: "worker_frame st (report_error node e st)"
  by (simp add: report_error_def worker_frame_def)

lemmas report_error_kept [simp] = report_error_frame [unfolded worker_frame_def]

lemma process_admitted_frame: "worker_frame st (process_admitted env node st)"
  by (simp add: process_admitted_def Let_def split_beta worker_frame_def
           split: sum.splits option.splits)

lemmas process_admitted_kept [simp] = process_admitted_frame [unfolded worker_frame_def]

section \<open>The check under the lock and the cap\<close>

lemma check_and_insert_fst:
  "fst (check_and_insert node st) =
     (spotify_id (store st node) |\<notin>| processed_artists st
      \<and> int (fcard (processed_artists st)) < max_artists st)"
  by (auto simp: check_and_insert_def)

lemma check_and_insert_refused: "\<not> fst (check_and_insert node st) \<Longrightarrow> snd (check_and_insert node st) = st"
  by (auto simp: check_and_insert_def)

lemma check_and_insert_admitted:
  "fst (check_and_insert node st) \<Longrightarrow>
     snd (check_and_insert node st) =
       st\<lparr>processed_artists := finsert (spotify_id (store st node)) (processed_artists st)\<rparr>"
  by (auto simp: check_and_insert_def)

lemma process_artist_refused: "\<not> fst (check_and_insert node st) \<Longrightarrow> process_artist env node st = st"
  by (simp add: process_artist_def split_beta check_and_insert_refused split: bool.splits)

lemma process_artist_admitted:
  "fst (check_and_insert node st) \<Longrightarrow>
     process_artist env node st = process_admitted env node (snd (check_and_insert node st))"
  by (simp add: process_artist_def split_beta split: bool.splits)

lemma process_artist_processed:
  "processed_artists (process_artist env node st) =
     (if fst (check_and_insert node st)
      then finsert (spotify_id (store st node)) (processed_artists st)
      else processed_artists st)"
  by (simp add: process_artist_refused process_artist_admitted check_and_insert_admitted)

lemma process_artist_config [simp]:
  "max_artists (process_artist env node st) = max_artists st"
  "max_concurrent (process_artist env node st) = max_concurrent st"
  "max_depth (process_artist env node st) = max_depth st"
  "related_limit (process_artist env node st) = related_limit st"
  "is_running (process_artist env node st) = is_running st"
  by (cases "fst (check_and_insert node st)";
      simp add: process_artist_refused process_artist_admitted check_and_insert_admitted)+

lemma within_cap_check_and_insert: "within_cap st \<Longrightarrow> within_cap (snd (check_and_insert node st))"
  by (auto simp: within_cap_def check_and_insert_def fcard_finsert_disjoint)

lemma within_cap_process_admitted: "within_cap st \<Longrightarrow> within_cap (process_admitted env node st)"
  by (simp add: within_cap_def)

lemma within_cap_process_artist: "within_cap st \<Longrightarrow> within_cap (process_artist env node st)"
  by (cases "fst (check_and_insert node st)")
     (simp_all add: process_artist_refused process_artist_admitted within_cap_check_and_insert
        within_cap_process_admitted)

lemma within_cap_process_calls: "within_cap st \<Longrightarrow> within_cap (process_calls calls st)"
  by (induction calls arbitrary: st) (auto simp: within_cap_process_artist)

lemma within_cap_process_batch: "within_cap st \<Longrightarrow> within_cap (process_batch env nodes st)"
  by (induction nodes arbitrary: st) (auto simp: within_cap_process_artist)

lemma within_cap_dispatch_loop:
  assumes "dispatch_loop env st = Some st'"
  shows "within_cap st \<longrightarrow> within_cap st'"
proof (rule dispatch_loop.raw_induct
         [where P = "\<lambda>env st st'. within_cap st \<longrightarrow> within_cap st'", OF _ assms])
  fix loop :: "services \<Rightarrow> downloader \<Rightarrow> downloader option"
    and env :: services and st st' :: downloader
  let ?k = "nat (min (max_concurrent st) (int (length (artist_queue st))))"
  let ?next = "process_batch env (take ?k (artist_queue st))
                 (st\<lparr>artist_queue := drop ?k (artist_queue st)\<rparr>)"
  assume IH: "\<And>e s y. loop e s = Some y \<Longrightarrow> within_cap s \<longrightarrow> within_cap y"
    and eq: "(if artist_queue st \<noteq> [] \<and> int (fcard (processed_artists st)) < max_artists st
                 \<and> is_running st
              then loop env ?next else Some st) = Some st'"
  show "within_cap st \<longrightarrow> within_cap st'"
  proof (cases "artist_queue st \<noteq> [] \<and> int (fcard (processed_artists st)) < max_artists st
                  \<and> is_running st")
    case True
    with eq have "loop env ?next = Some st'"
      by simp
    moreover have "within_cap st \<Longrightarrow> within_cap ?next"
      by (rule within_cap_process_batch) (simp add: within_cap_def)
    ultimately show ?thesis
      using IH by blast
  next
    case False
    with eq have "st' = st" by auto
    then show ?thesis by simp
  qed
qed

lemma within_cap_run: "run env st = Some st' \<Longrightarrow> within_cap st \<Longrightarrow> within_cap st'"
  unfolding run_def
  apply (simp add: Let_def split_beta run_failed_def split: if_splits option.splits sum.splits)
      apply (auto simp: within_cap_def dest!: within_cap_dispatch_loop)
  done

section \<open>The driver loop ends\<close>

lemma process_batch_config [simp]:
  "max_artists (process_batch env nodes st) = max_artists st"
  "max_concurrent (process_batch env nodes st) = max_concurrent st"
  "max_depth (process_batch env nodes st) = max_depth st"
  "related_limit (process_batch env nodes st) = related_limit st"
  "is_running (process_batch env nodes st) = is_running st"
  by (induction nodes arbitrary: st; simp)+

lemma process_artist_progress:
  "process_artist env node st = st
   \<or> fcard (processed_artists st) < fcard (processed_artists (process_artist env node st))"
  by (cases "fst (check_and_insert node st)")
     (simp_all add: process_artist_refused process_artist_processed check_and_insert_fst
        fcard_finsert_disjoint)

lemma process_batch_progress:
  "process_batch env nodes st = st
   \<or> fcard (processed_artists st) < fcard (processed_artists (process_batch env nodes st))"
proof (induction nodes arbitrary: st)
  case Nil
  show ?case by simp
next
  case (Cons n ns)
  from process_artist_progress [of env n st] Cons.IH [of st] Cons.IH [of "process_artist env n st"]
  show ?case
    by (cases "process_artist env n st = st") auto
qed

lemma dispatch_loop_terminates:
  assumes "0 < max_concurrent st"
  shows "\<exists>st'. dispatch_loop env st = Some st'"
proof -
  let ?R = "measures [\<lambda>st :: downloader. nat (max_artists st - int (fcard (processed_artists st))),
                      \<lambda>st. length (artist_queue st)]"
  have "wf ?R"
    by simp
  then show ?thesis
    using assms
  proof (induction st rule: wf_induct_rule)
    case (less st)
    let ?k = "nat (min (max_concurrent st) (int (length (artist_queue st))))"
    let ?st1 = "st\<lparr>artist_queue := drop ?k (artist_queue st)\<rparr>"
    let ?next = "process_batch env (take ?k (artist_queue st)) ?st1"
    show ?case
    proof (cases "artist_queue st \<noteq> [] \<and> int (fcard (processed_artists st)) < max_artists st
                    \<and> is_running st")
      case False
      then show ?thesis
        by (subst dispatch_loop.simps) auto
    next
      case True
      have k: "0 < ?k"
        using True less.prems by (cases "artist_queue st") auto
      have "(?next, st) \<in> ?R"
      proof (cases "?next = ?st1")
        case same: True
        have "length (artist_queue ?st1) < length (artist_queue st)"
          using True k by (cases "artist_queue st") auto
        with same show ?thesis by simp
      next
        case False
        with process_batch_progress [of env "take ?k (artist_queue st)" ?st1]
        have "fcard (processed_artists st) < fcard (processed_artists ?next)"
          by simp
        with True show ?thesis by auto
      qed
      moreover have "0 < max_concurrent ?next"
        using less.prems by simp
      ultimately obtain st' where "dispatch_loop env ?next = Some st'"
        using less.IH by blast
      with True show ?thesis
        by (subst dispatch_loop.simps) simp
    qed
  qed
qed

lemma run_returns: "\<exists>st'. run env st = Some st'"
proof -
  have *: "max_concurrent s \<le> 0" if none: "dispatch_loop env s = None" for s :: downloader
  proof (rule ccontr)
    assume "\<not> max_concurrent s \<le> 0"
    then have "0 < max_concurrent s" by simp
    from dispatch_loop_terminates [OF this, of env] none show False by simp
  qed
  show ?thesis
    unfolding run_def
    by (auto simp: Let_def split_beta split: option.splits sum.splits dest!: *)
qed

section \<open>Evaluating the examples\<close>

lemmas eval_defs = process_artist_def check_and_insert_def process_admitted_def
  find_deezer_artist_def download_artist_def enqueue_related_def report_error_def
  get_wildly_different_artists_def new_node_def emit_def init_def demo_services_def
  demo_downloader_def capped_downloader_def rooted_downloader_def
  siblings_downloader_def Let_def py_prefix_def random_sample_def
  random_shuffle_def fcard_fempty fcard_finsert_if

section \<open>Size of the processed set\<close>

text \<open>
  Claim C3. For every run with configured artist cap \<open>max_artists\<close>, the size of the
  processed set never exceeds the cap, at any point and in particular at the end of the
  run, because \<^verbatim>\<open>process_artist\<close> refuses to insert once the set has reached the cap.

  A run starts from an empty processed set and a cap that is not negative. The set is
  written only under the lock, so its states during a run are those after some sequence of
  \<^verbatim>\<open>process_artist\<close> invocations (\<open>process_calls\<close>); the run itself always returns, and
  its final state is within the cap as well.
\<close>
theorem processed_set_within_cap:
  assumes "0 \<le> max_artists st" and "processed_artists st = {||}"
  shows "within_cap (process_calls calls st)
         \<and> (\<exists>st'. run env st = Some st' \<and> within_cap st')
         \<and> (max_artists st1 \<le> int (fcard (processed_artists st1))
              \<longrightarrow> process_artist env1 node st1 = st1)"
proof -
  from assms have start: "within_cap st"
    by (simp add: within_cap_def fcard_fempty)
  obtain st' where "run env st = Some st'"
    using run_returns by blast
  with start have "\<exists>st'. run env st = Some st' \<and> within_cap st'"
    using within_cap_run by blast
  moreover have "process_artist env1 node st1 = st1"
    if "max_artists st1 \<le> int (fcard (processed_artists st1))"
    using that by (simp add: process_artist_refused check_and_insert_fst)
  ultimately show ?thesis
    using start within_cap_process_calls by blast
qed

theorem processed_set_within_cap_witness:
  "0 \<le> max_artists capped_downloader \<and> processed_artists capped_downloader = {||}
   \<and> within_cap (process_calls [(demo_services, 0), (demo_services, 1)] capped_downloader)
   \<and> (\<exists>st'. run demo_services capped_downloader = Some st' \<and> within_cap st')
   \<and> max_artists (process_artist demo_services 0 capped_downloader)
        \<le> int (fcard (processed_artists (process_artist demo_services 0 capped_downloader)))
   \<and> process_artist demo_services 1 (process_artist demo_services 0 capped_downloader)
        = process_artist demo_services 0 capped_downloader"
proof -
  have h1: "0 \<le> max_artists capped_downloader"
    by (simp add: capped_downloader_def init_def)
  have h2: "processed_artists capped_downloader = {||}"
    by (simp add: capped_downloader_def init_def)
  have h3: "max_artists (process_artist demo_services 0 capped_downloader)
        \<le> int (fcard (processed_artists (process_artist demo_services 0 capped_downloader)))"
    by (simp add: process_artist_processed check_and_insert_fst capped_downloader_def init_def
          fcard_fempty fcard_finsert_if)
  from processed_set_within_cap [OF h1 h2,
      of "[(demo_services, 0), (demo_services, 1)]" demo_services
         "process_artist demo_services 0 capped_downloader" demo_services 1] h1 h2 h3
  show ?thesis by blast
qed

section \<open>Events of a dispatched node\<close>

text \<open>
  Claim C1. Every node that passes the de-duplication check gets a per-artist finished
  event (a failure entry on failure): on download success or failure, when name resolution
  finds no match, and on any exception during processing; without a match the downloader
  is not invoked.

  The source fires the finished callback only on the branch where a match was found. Node
  C (no match on the target catalog) and node D (the source-catalog lookup raises) both
  pass the check, and each leaves a log line but no \<open>ArtistFinished\<close> event.
\<close>
theorem failure_without_finished_event:
  "fst (check_and_insert 0 (snd (new_node ''C'' ''Cc'' 1 demo_downloader)))
   \<and> trace (process_artist demo_services 0 (snd (new_node ''C'' ''Cc'' 1 demo_downloader)))
       = [Call_sp_artist ''C'', Call_dz_search ''Cc'',
          Output ''Could not find Deezer artist for: Cc'']
   \<and> fst (check_and_insert 0 (snd (new_node ''D'' ''Dd'' 1 demo_downloader)))
   \<and> trace (process_artist demo_services 0 (snd (new_node ''D'' ''Dd'' 1 demo_downloader)))
       = [Call_sp_artist ''D'', Output ''Error processing artist Dd: not found'']"
  by (simp add: eval_defs)

lemma no_match_trace:
  assumes "fst (check_and_insert node st)"
    and "sp_artist env (spotify_id (store st node)) = Inr a"
    and "dz_search_artist env (sp_name a) = Inr []"
  shows "trace (process_artist env node st) =
           trace st @ [Call_sp_artist (spotify_id (store st node)), Call_dz_search (sp_name a),
                       Output (''Could not find Deezer artist for: '' @ name (store st node))]"
  using assms
  by (simp add: process_artist_admitted check_and_insert_admitted process_admitted_def
        find_deezer_artist_def Let_def)

lemma lookup_error_trace:
  assumes "fst (check_and_insert node st)"
    and "sp_artist env (spotify_id (store st node)) = Inl e"
  shows "trace (process_artist env node st) =
           trace st @ [Call_sp_artist (spotify_id (store st node)),
                       Output (''Error processing artist '' @ name (store st node) @ '': ''
                               @ message e)]"
  using assms
  by (simp add: process_artist_admitted check_and_insert_admitted process_admitted_def
        report_error_def Let_def)

section \<open>De-duplication at dispatch\<close>

lemma processed_artists_mono:
  "sid |\<in>| processed_artists st \<Longrightarrow> sid |\<in>| processed_artists (process_artist env node st)"
  by (simp add: process_artist_processed)

lemma winners_processed: "sid |\<in>| processed_artists st \<Longrightarrow> winners sid calls st = 0"
proof (induction calls arbitrary: st)
  case Nil
  show ?case by simp
next
  case (Cons call calls)
  obtain env node where call: "call = (env, node)"
    by (cases call)
  from Cons.prems have "\<not> (spotify_id (store st node) = sid \<and> fst (check_and_insert node st))"
    by (auto simp: check_and_insert_fst)
  moreover have "winners sid calls (process_artist env node st) = 0"
    using Cons.IH Cons.prems processed_artists_mono by blast
  ultimately show ?case
    by (simp add: call)
qed

lemma winners_le_1: "winners sid calls st \<le> 1"
proof (induction calls arbitrary: st)
  case Nil
  show ?case by simp
next
  case (Cons call calls)
  obtain env node where call: "call = (env, node)"
    by (cases call)
  show ?case
  proof (cases "spotify_id (store st node) = sid \<and> fst (check_and_insert node st)")
    case True
    then have "sid |\<in>| processed_artists (process_artist env node st)"
      by (auto simp: process_artist_processed)
    then have "winners sid calls (process_artist env node st) = 0"
      by (rule winners_processed)
    with True show ?thesis
      by (simp add: call)
  next
    case False
    with Cons.IH [of "process_artist env node st"] show ?thesis
      by (auto simp: call)
  qed
qed

text \<open>
  Claim C2, as amended. For every sequence of \<^verbatim>\<open>process_artist\<close> invocations and every
  identifier, at most one invocation for that identifier passes the check-and-insert and
  proceeds; an invocation that does not pass returns the state unchanged; and exactly one
  passes when the identifier is not yet processed and the set is below the cap at the
  first of them.
\<close>

theorem at_most_one_winner:
  "winners sid calls st \<le> 1
   \<and> (\<not> fst (check_and_insert node2 st2) \<longrightarrow> process_artist env2 node2 st2 = st2)
   \<and> (spotify_id (store st node) = sid \<and> sid |\<notin>| processed_artists st
        \<and> int (fcard (processed_artists st)) < max_artists st
      \<longrightarrow> winners sid ((env, node) # calls) st = 1)"
proof -
  have "winners sid ((env, node) # calls) st = 1"
    if "spotify_id (store st node) = sid" "sid |\<notin>| processed_artists st"
       "int (fcard (processed_artists st)) < max_artists st"
  proof -
    from that have win: "fst (check_and_insert node st)"
      by (simp add: check_and_insert_fst)
    with that have "sid |\<in>| processed_artists (process_artist env node st)"
      by (simp add: process_artist_processed)
    then have "winners sid calls (process_artist env node st) = 0"
      by (rule winners_processed)
    with win that show ?thesis by simp
  qed
  then show ?thesis
    using winners_le_1 process_artist_refused by blast
qed

theorem at_most_one_winner_witness:
  "winners ''A'' [(demo_services, 1), (demo_services, 2)] capped_downloader \<le> 1
   \<and> \<not> fst (check_and_insert 1 (process_artist demo_services 0 capped_downloader))
   \<and> process_artist demo_services 1 (process_artist demo_services 0 capped_downloader)
       = process_artist demo_services 0 capped_downloader
   \<and> spotify_id (store capped_downloader 0) = ''A''
   \<and> ''A'' |\<notin>| processed_artists capped_downloader
   \<and> int (fcard (processed_artists capped_downloader)) < max_artists capped_downloader
   \<and> winners ''A'' [(demo_services, 0), (demo_services, 1), (demo_services, 2)]
        capped_downloader = 1"
proof -
  have h1: "\<not> fst (check_and_insert 1 (process_artist demo_services 0 capped_downloader))"
    by (simp add: check_and_insert_fst process_artist_processed capped_downloader_def init_def
          new_node_def fcard_fempty fcard_finsert_if)
  have h2: "spotify_id (store capped_downloader 0) = ''A''
            \<and> ''A'' |\<notin>| processed_artists capped_downloader
            \<and> int (fcard (processed_artists capped_downloader)) < max_artists capped_downloader"
    by (simp add: capped_downloader_def init_def new_node_def fcard_fempty)
  from at_most_one_winner [of "''A''" "[(demo_services, 1), (demo_services, 2)]"
      capped_downloader 1 "process_artist demo_services 0 capped_downloader" demo_services
      0 demo_services] h1 h2
  show ?thesis by blast
qed

text \<open>
  The claim as stated promises exactly one winner. With the cap (one artist) taken by A,
  the two invocations for B are both refused: B has no winner.
\<close>

theorem no_winner_at_cap:
  "spotify_id (store capped_downloader 1) = ''B'' \<and> spotify_id (store capped_downloader 2) = ''B''
   \<and> ''B'' |\<notin>| processed_artists capped_downloader
   \<and> winners ''B'' [(demo_services, 0), (demo_services, 1), (demo_services, 2)]
        capped_downloader = 0"
  by (simp add: eval_defs)

text \<open>
  Once the cap is reached no invocation wins, whatever its identifier; and of two
  invocations for the same new identifier below the cap exactly one wins.
\<close>

lemma none_at_cap:
  "max_artists st \<le> int (fcard (processed_artists st)) \<Longrightarrow> winners sid calls st = 0"
proof (induction calls arbitrary: st)
  case Nil
  show ?case by simp
next
  case (Cons call calls)
  obtain env node where call: "call = (env, node)"
    by (cases call)
  from Cons.prems have refused: "\<not> fst (check_and_insert node st)"
    by (simp add: check_and_insert_fst)
  then have "process_artist env node st = st"
    by (rule process_artist_refused)
  with Cons.IH [OF Cons.prems] refused show ?case
    by (simp add: call)
qed

lemma one_winner_of_two:
  "spotify_id (store capped_downloader 1) = ''B'' \<and> spotify_id (store capped_downloader 2) = ''B''
   \<and> winners ''B'' [(demo_services, 1), (demo_services, 2)] capped_downloader = 1"
  by (simp add: eval_defs)

section \<open>Depth of enqueued children\<close>

lemma add_children_queue:
  "artist_queue (add_children node rs st) =
     artist_queue st @ [next_ref st ..< next_ref st + length rs]"
proof (induction rs arbitrary: st)
  case Nil
  show ?case by simp
next
  case (Cons r rs)
  show ?case
    by (simp add: Let_def split_beta Cons.IH upt_conv_Cons del: upt_Suc)
qed

lemma add_children_children:
  "node < next_ref st \<Longrightarrow>
     children (store (add_children node rs st) node) =
       children (store st node) @ [next_ref st ..< next_ref st + length rs]"
proof (induction rs arbitrary: st)
  case Nil
  show ?case by simp
next
  case (Cons r rs)
  then show ?case
    by (simp add: Let_def split_beta upt_conv_Cons del: upt_Suc)
qed

lemma add_children_depth_old:
  "a < next_ref st \<Longrightarrow> depth (store (add_children node rs st) a) = depth (store st a)"
proof (induction rs arbitrary: st)
  case Nil
  show ?case by simp
next
  case (Cons r rs)
  then show ?case
    by (simp add: Let_def split_beta)
qed

lemma add_children_depth_new:
  "node < next_ref st \<Longrightarrow> next_ref st \<le> c \<Longrightarrow> c < next_ref st + length rs \<Longrightarrow>
     depth (store (add_children node rs st) c) = depth (store st node) + 1"
proof (induction rs arbitrary: st)
  case Nil
  then show ?case by simp
next
  case (Cons r rs)
  let ?st3 = "snd (new_node (rel_id r) (rel_name r) (depth (store st node) + 1) st)
       \<lparr>store := (store (snd (new_node (rel_id r) (rel_name r) (depth (store st node) + 1) st)))
          (node := store (snd (new_node (rel_id r) (rel_name r) (depth (store st node) + 1) st)) node
             \<lparr>children := children (store (snd (new_node (rel_id r) (rel_name r) (depth (store st node) + 1) st)) node) @ [next_ref st]\<rparr>),
        artist_queue := artist_queue (snd (new_node (rel_id r) (rel_name r) (depth (store st node) + 1) st)) @ [next_ref st]\<rparr>"
  have unfold: "add_children node (r # rs) st = add_children node rs ?st3"
    by (simp add: Let_def split_beta)
  have nr: "next_ref ?st3 = Suc (next_ref st)" by simp
  have dn: "depth (store ?st3 node) = depth (store st node)"
    using Cons.prems(1) by simp
  show ?case
  proof (cases "c = next_ref st")
    case True
    have "depth (store (add_children node rs ?st3) c) = depth (store ?st3 c)"
      by (rule add_children_depth_old) (simp add: True)
    also have "\<dots> = depth (store st node) + 1"
      using Cons.prems(1) by (simp add: True)
    finally show ?thesis by (simp only: unfold)
  next
    case False
    have "depth (store (add_children node rs ?st3) c) = depth (store ?st3 node) + 1"
      using Cons.prems False by (intro Cons.IH) (simp_all only: nr, simp_all)
    then show ?thesis by (simp only: unfold dn)
  qed
qed


lemma enqueue_related_children:
  assumes "node < next_ref st"
  shows "\<exists>n. artist_queue (snd (enqueue_related env a node st))
               = artist_queue st @ [next_ref st ..< next_ref st + n]
            \<and> children (store (snd (enqueue_related env a node st)) node)
               = children (store st node) @ [next_ref st ..< next_ref st + n]
            \<and> (\<forall>c. next_ref st \<le> c \<and> c < next_ref st + n \<longrightarrow>
                  depth (store (snd (enqueue_related env a node st)) c)
                    = depth (store st node) + 1)"
proof (cases "sp_artist_related_artists env (spotify_id (store st node))")
  case (Inl e)
  then have "snd (enqueue_related env a node st) = emit (Call_sp_related (spotify_id (store st node))) st"
    by (simp add: enqueue_related_def)
  then show ?thesis
    by (intro exI [of _ 0]) simp
next
  case (Inr related)
  define st1 where "st1 = emit (Call_sp_related (spotify_id (store st node))) st"
  define shuffled where
    "shuffled = (if wild_branching st1 then random_shuffle (shuffle_picks env) related else related)"
  define sel where
    "sel = (if wildly_different st1 then get_wildly_different_artists env a shuffled st1
            else (Inr shuffled, st1))"
  have same: "store (snd sel) = store st" "next_ref (snd sel) = next_ref st"
    "artist_queue (snd sel) = artist_queue st"
    by (simp_all add: sel_def st1_def)
  have unfold: "enqueue_related env a node st =
      (case fst sel of
         Inl e \<Rightarrow> (Some e, snd sel)
       | Inr selected \<Rightarrow>
           (None, emit (TreeUpdated (root_node
                    (add_children node (py_prefix (related_limit (snd sel)) selected) (snd sel))))
                    (add_children node (py_prefix (related_limit (snd sel)) selected) (snd sel))))"
    unfolding enqueue_related_def sel_def shuffled_def st1_def Let_def split_beta
    by (simp add: Inr)
  show ?thesis
  proof (cases "fst sel")
    case (Inl e)
    then have "snd (enqueue_related env a node st) = snd sel"
      by (simp add: unfold)
    then show ?thesis
      by (intro exI [of _ 0]) (simp add: same)
  next
    case sel_ok: (Inr selected)
    let ?rs = "py_prefix (related_limit (snd sel)) selected"
    let ?st3 = "add_children node ?rs (snd sel)"
    from sel_ok have "snd (enqueue_related env a node st) = emit (TreeUpdated (root_node ?st3)) ?st3"
      by (simp add: unfold)
    moreover have "node < next_ref (snd sel)"
      using assms by (simp add: same)
    ultimately show ?thesis
      by (intro exI [of _ "length ?rs"])
         (simp add: add_children_queue add_children_children add_children_depth_new same)
  qed
qed

lemma process_admitted_children:
  assumes "node < next_ref st"
  shows "\<exists>n. artist_queue (process_admitted env node st)
               = artist_queue st @ [next_ref st ..< next_ref st + n]
            \<and> children (store (process_admitted env node st) node)
               = children (store st node) @ [next_ref st ..< next_ref st + n]
            \<and> (\<forall>c. next_ref st \<le> c \<and> c < next_ref st + n \<longrightarrow>
                  depth (store (process_admitted env node st) c) = depth (store st node) + 1
                  \<and> depth (store (process_admitted env node st) c) \<le> max_depth st)"
proof (cases "sp_artist env (spotify_id (store st node))")
  case (Inl e)
  then show ?thesis
    by (intro exI [of _ 0]) (simp add: process_admitted_def report_error_def)
next
  case (Inr a)
  define st1 where "st1 = emit (Call_sp_artist (spotify_id (store st node))) st"
  show ?thesis
  proof (cases "fst (find_deezer_artist env (sp_name a) st1)")
    case None
    with Inr show ?thesis
      by (intro exI [of _ 0])
         (simp add: process_admitted_def st1_def split_beta)
  next
    case (Some d)
    define st2 where "st2 = snd (find_deezer_artist env (sp_name a) st1)"
    define st3 where "st3 = st2\<lparr>store := (store st2)(node :=
                                (store st2 node)\<lparr>deezer_id := Some (dz_id d)\<rparr>)\<rparr>"
    define st4 where "st4 = snd (download_artist env d node st3)"
    define st5 where "st5 = emit (ArtistFinished
                                  (sp_name a @ ''|'' @ spotify_id (store st4 node)
                                   @ ''|'' @ dz_id d) (fst (download_artist env d node st3))) st4"
    have same: "next_ref st5 = next_ref st" "artist_queue st5 = artist_queue st"
      "depth (store st5 node) = depth (store st node)"
      "children (store st5 node) = children (store st node)"
      "max_depth st5 = max_depth st"
      by (simp_all add: st5_def st4_def st3_def st2_def st1_def)
    have unfold: "process_admitted env node st =
        (if int (fcard (processed_artists st5)) < max_artists st5
            \<and> depth (store st5 node) < max_depth st5
         then (case fst (enqueue_related env a node st5) of
                 Some e \<Rightarrow> report_error node e (snd (enqueue_related env a node st5))
               | None \<Rightarrow> snd (enqueue_related env a node st5))
         else st5)"
      using Inr Some
      unfolding process_admitted_def st5_def st4_def st3_def st2_def st1_def Let_def split_beta
      by simp
    show ?thesis
    proof (cases "int (fcard (processed_artists st5)) < max_artists st5
                    \<and> depth (store st5 node) < max_depth st5")
      case False
      then have "process_admitted env node st = st5"
        by (auto simp: unfold)
      then show ?thesis
        by (intro exI [of _ 0]) (simp add: same)
    next
      case True
      let ?r = "enqueue_related env a node st5"
      from True have res: "process_admitted env node st =
          (case fst ?r of Some e \<Rightarrow> report_error node e (snd ?r) | None \<Rightarrow> snd ?r)"
        by (simp add: unfold)
      have inner: "artist_queue (process_admitted env node st) = artist_queue (snd ?r)"
        "store (process_admitted env node st) = store (snd ?r)"
        by (simp_all add: res report_error_def split: option.splits)
      have "node < next_ref st5"
        using assms by (simp add: same)
      from enqueue_related_children [OF this, of env a] obtain n where
        n: "artist_queue (snd ?r) = artist_queue st5 @ [next_ref st5 ..< next_ref st5 + n]"
           "children (store (snd ?r) node)
              = children (store st5 node) @ [next_ref st5 ..< next_ref st5 + n]"
           "\<forall>c. next_ref st5 \<le> c \<and> c < next_ref st5 + n \<longrightarrow>
                  depth (store (snd ?r) c) = depth (store st5 node) + 1"
        by blast
      from True have "depth (store st node) + 1 \<le> max_depth st"
        by (simp add: same)
      with n show ?thesis
        by (intro exI [of _ n]) (simp add: inner same)
    qed
  qed
qed

lemma enqueue_related_depth_old:
  "a < next_ref st \<Longrightarrow>
     depth (store (snd (enqueue_related env src node st)) a) = depth (store st a)"
  by (simp add: enqueue_related_def Let_def split_beta add_children_depth_old split: sum.splits)

lemma enqueue_related_alloc:
  "next_ref (snd (enqueue_related env src node st))
     = next_ref st + (length (artist_queue (snd (enqueue_related env src node st)))
                      - length (artist_queue st))"
  by (simp add: enqueue_related_def Let_def split_beta add_children_queue split: sum.splits)

lemma process_admitted_depth_old:
  "a < next_ref st \<Longrightarrow> depth (store (process_admitted env node st) a) = depth (store st a)"
  by (simp add: process_admitted_def report_error_def Let_def split_beta
        enqueue_related_depth_old split: sum.splits option.splits)

lemma process_admitted_alloc:
  "next_ref (process_admitted env node st)
     = next_ref st + (length (artist_queue (process_admitted env node st))
                      - length (artist_queue st))"
  by (simp add: process_admitted_def report_error_def Let_def split_beta
        enqueue_related_alloc split: sum.splits option.splits)

lemma process_artist_depth_old:
  "a < next_ref st \<Longrightarrow> depth (store (process_artist env node st) a) = depth (store st a)"
  by (cases "fst (check_and_insert node st)")
     (simp_all add: process_artist_refused process_artist_admitted check_and_insert_admitted
        process_admitted_depth_old)

lemma process_artist_alloc:
  "next_ref (process_artist env node st)
     = next_ref st + (length (artist_queue (process_artist env node st))
                      - length (artist_queue st))"
  using process_admitted_alloc
    [of env node "st\<lparr>processed_artists := finsert (spotify_id (store st node)) (processed_artists st)\<rparr>"]
  by (cases "fst (check_and_insert node st)")
     (simp_all add: process_artist_refused process_artist_admitted check_and_insert_admitted)


lemma process_artist_children:
  assumes "node < next_ref st"
  shows "\<exists>n. artist_queue (process_artist env node st)
               = artist_queue st @ [next_ref st ..< next_ref st + n]
            \<and> children (store (process_artist env node st) node)
               = children (store st node) @ [next_ref st ..< next_ref st + n]
            \<and> (\<forall>c. next_ref st \<le> c \<and> c < next_ref st + n \<longrightarrow>
                  depth (store (process_artist env node st) c) = depth (store st node) + 1
                  \<and> depth (store (process_artist env node st) c) \<le> max_depth st)"
proof (cases "fst (check_and_insert node st)")
  case False
  then show ?thesis
    by (intro exI [of _ 0]) (simp add: process_artist_refused)
next
  case True
  let ?st1 = "st\<lparr>processed_artists := finsert (spotify_id (store st node)) (processed_artists st)\<rparr>"
  from True have eq: "process_artist env node st = process_admitted env node ?st1"
    by (simp add: process_artist_admitted check_and_insert_admitted)
  have "node < next_ref ?st1"
    using assms by simp
  from process_admitted_children [OF this, of env] show ?thesis
    unfolding eq by simp
qed

lemma depths_bounded_iff:
  "depths_bounded st =
     ((\<forall>c \<in> set (artist_queue st). c < next_ref st)
      \<and> (\<forall>a < next_ref st. depth (store st a) \<le> max_depth st))"
  by (auto simp: depths_bounded_def list_all_iff)

lemma depths_bounded_process_artist:
  assumes "node < next_ref st" and "depths_bounded st"
  shows "depths_bounded (process_artist env node st)"
proof -
  let ?st' = "process_artist env node st"
  from process_artist_children [OF assms(1), of env] obtain n where
    q: "artist_queue ?st' = artist_queue st @ [next_ref st ..< next_ref st + n]"
    and d: "\<forall>c. next_ref st \<le> c \<and> c < next_ref st + n \<longrightarrow> depth (store ?st' c) \<le> max_depth st"
    by blast
  have nr: "next_ref ?st' = next_ref st + n"
    by (subst process_artist_alloc) (simp add: q)
  have "c < next_ref ?st'" if "c \<in> set (artist_queue ?st')" for c
    using that assms(2) by (auto simp: q nr depths_bounded_iff)
  moreover have "depth (store ?st' a) \<le> max_depth ?st'" if "a < next_ref ?st'" for a
  proof (cases "a < next_ref st")
    case True
    with assms(2) show ?thesis
      by (simp add: process_artist_depth_old depths_bounded_iff)
  next
    case False
    with that d show ?thesis
      by (simp add: nr)
  qed
  ultimately show ?thesis
    by (simp add: depths_bounded_iff)
qed

lemma next_ref_process_artist: "next_ref st \<le> next_ref (process_artist env node st)"
  by (subst process_artist_alloc) simp

lemma depths_bounded_process_batch:
  "list_all (\<lambda>c. c < next_ref st) nodes \<Longrightarrow> depths_bounded st \<Longrightarrow>
     depths_bounded (process_batch env nodes st)"
proof (induction nodes arbitrary: st)
  case Nil
  then show ?case by simp
next
  case (Cons n ns)
  from Cons.prems have "depths_bounded (process_artist env n st)"
    by (simp add: depths_bounded_process_artist)
  moreover from Cons.prems have "list_all (\<lambda>c. c < next_ref (process_artist env n st)) ns"
    using next_ref_process_artist [of st env n] by (auto simp: list_all_iff)
  ultimately show ?case
    using Cons.IH by simp
qed

lemma depths_bounded_dispatch_loop:
  assumes "dispatch_loop env st = Some st'"
  shows "depths_bounded st \<longrightarrow> depths_bounded st'"
proof (rule dispatch_loop.raw_induct
         [where P = "\<lambda>env st st'. depths_bounded st \<longrightarrow> depths_bounded st'", OF _ assms])
  fix loop :: "services \<Rightarrow> downloader \<Rightarrow> downloader option"
    and env :: services and st st' :: downloader
  let ?k = "nat (min (max_concurrent st) (int (length (artist_queue st))))"
  let ?st1 = "st\<lparr>artist_queue := drop ?k (artist_queue st)\<rparr>"
  let ?next = "process_batch env (take ?k (artist_queue st)) ?st1"
  assume IH: "\<And>e s y. loop e s = Some y \<Longrightarrow> depths_bounded s \<longrightarrow> depths_bounded y"
    and eq: "(if artist_queue st \<noteq> [] \<and> int (fcard (processed_artists st)) < max_artists st
                 \<and> is_running st
              then loop env ?next else Some st) = Some st'"
  show "depths_bounded st \<longrightarrow> depths_bounded st'"
  proof (cases "artist_queue st \<noteq> [] \<and> int (fcard (processed_artists st)) < max_artists st
                  \<and> is_running st")
    case True
    with eq have "loop env ?next = Some st'"
      by simp
    moreover have "depths_bounded ?next" if "depths_bounded st"
    proof (rule depths_bounded_process_batch)
      from that show "list_all (\<lambda>c. c < next_ref ?st1) (take ?k (artist_queue st))"
        by (auto simp: depths_bounded_iff list_all_iff dest: in_set_takeD)
      from that show "depths_bounded ?st1"
        by (auto simp: depths_bounded_iff dest: in_set_dropD)
    qed
    ultimately show ?thesis
      using IH by blast
  next
    case False
    with eq have "st' = st" by auto
    then show ?thesis by simp
  qed
qed

lemma depths_bounded_run:
  assumes "run env st = Some st'" and "0 \<le> max_depth st" and "depths_bounded st"
  shows "depths_bounded st'"
proof -
  have start: "depths_bounded
      (emit (TreeUpdated (Some (next_ref st)))
         (snd (new_node i nm 0 (emit (Call_sp_artist i) st))\<lparr>root_node := Some (next_ref st)\<rparr>)
       \<lparr>artist_queue := artist_queue st @ [next_ref st]\<rparr>)" for i nm
    using assms(2,3) by (auto simp: depths_bounded_iff less_Suc_eq)
  have keep: "depths_bounded (emit e s) = depths_bounded s" for e s
    by (simp add: depths_bounded_iff)
  from assms(1,3) show ?thesis
    unfolding run_def Let_def split_beta run_failed_def
    by (auto simp: keep split: if_splits option.splits sum.splits
          dest!: depths_bounded_dispatch_loop intro: start)
qed

text \<open>
  Claim C4. Every child node that \<^verbatim>\<open>process_artist\<close> enqueues has the depth of its parent plus
  one, and no node with a depth above the configured maximum is ever enqueued, since
  children are only created while the parent's depth is below it. The nodes put on the
  queue by one invocation are exactly those appended to the parent's children; the bound
  on all nodes is kept by every invocation, and it holds at the end of every run of a fresh
  downloader whose maximum depth is not negative (the root has depth 0).
\<close>

theorem child_depth:
  assumes "node < next_ref st"
  shows "(\<exists>new. artist_queue (process_artist env node st) = artist_queue st @ new
           \<and> children (store (process_artist env node st) node)
               = children (store st node) @ new
           \<and> (\<forall>c \<in> set new.
                 depth (store (process_artist env node st) c) = depth (store st node) + 1
                 \<and> depth (store (process_artist env node st) c) \<le> max_depth st))
         \<and> (depths_bounded st \<longrightarrow> depths_bounded (process_artist env node st))
         \<and> (0 \<le> max_depth st0 \<and> next_ref st0 = 0 \<and> artist_queue st0 = []
              \<longrightarrow> (\<exists>st'. run env0 st0 = Some st' \<and> depths_bounded st'))"
proof -
  from process_artist_children [OF assms, of env] obtain n where
    "artist_queue (process_artist env node st)
       = artist_queue st @ [next_ref st ..< next_ref st + n]
     \<and> children (store (process_artist env node st) node)
        = children (store st node) @ [next_ref st ..< next_ref st + n]
     \<and> (\<forall>c. next_ref st \<le> c \<and> c < next_ref st + n \<longrightarrow>
           depth (store (process_artist env node st) c) = depth (store st node) + 1
           \<and> depth (store (process_artist env node st) c) \<le> max_depth st)"
    by blast
  then have "\<exists>new. artist_queue (process_artist env node st) = artist_queue st @ new
           \<and> children (store (process_artist env node st) node)
               = children (store st node) @ new
           \<and> (\<forall>c \<in> set new.
                 depth (store (process_artist env node st) c) = depth (store st node) + 1
                 \<and> depth (store (process_artist env node st) c) \<le> max_depth st)"
    by (intro exI [of _ "[next_ref st ..< next_ref st + n]"]) auto
  moreover have "\<exists>st'. run env0 st0 = Some st' \<and> depths_bounded st'"
    if "0 \<le> max_depth st0" "next_ref st0 = 0" "artist_queue st0 = []"
  proof -
    from that have "depths_bounded st0"
      by (simp add: depths_bounded_iff)
    with that(1) show ?thesis
      using run_returns [of env0 st0] depths_bounded_run by blast
  qed
  ultimately show ?thesis
    using depths_bounded_process_artist [OF assms] by blast
qed

theorem child_depth_witness:
  "0 < next_ref rooted_downloader
   \<and> artist_queue (process_artist demo_services 0 rooted_downloader) = [1, 2]
   \<and> (\<exists>new. artist_queue (process_artist demo_services 0 rooted_downloader)
               = artist_queue rooted_downloader @ new
           \<and> children (store (process_artist demo_services 0 rooted_downloader) 0)
               = children (store rooted_downloader 0) @ new
           \<and> (\<forall>c \<in> set new.
                 depth (store (process_artist demo_services 0 rooted_downloader) c)
                   = depth (store rooted_downloader 0) + 1
                 \<and> depth (store (process_artist demo_services 0 rooted_downloader) c)
                   \<le> max_depth rooted_downloader))
   \<and> depths_bounded rooted_downloader
   \<and> depths_bounded (process_artist demo_services 0 rooted_downloader)
   \<and> 0 \<le> max_depth demo_downloader \<and> next_ref demo_downloader = 0
   \<and> artist_queue demo_downloader = []
   \<and> (\<exists>st'. run demo_services demo_downloader = Some st' \<and> depths_bounded st')"
proof -
  have h: "0 < next_ref rooted_downloader"
    by (simp add: rooted_downloader_def new_node_def)
  have q: "artist_queue (process_artist demo_services 0 rooted_downloader) = [1, 2]"
    by (simp add: eval_defs)
  have b: "depths_bounded rooted_downloader"
    by (simp add: depths_bounded_def rooted_downloader_def demo_downloader_def init_def
          new_node_def)
  have f: "0 \<le> max_depth demo_downloader \<and> next_ref demo_downloader = 0
           \<and> artist_queue demo_downloader = []"
    by (simp add: demo_downloader_def init_def)
  from child_depth [OF h, of demo_services demo_downloader demo_services] h q b f
  show ?thesis
    by blast
qed

section \<open>Seed URL\<close>

text \<open>On a URL without control characters and blanks the clean-up changes nothing.\<close>

lemma urlparse_plain:
  assumes "list_all (\<lambda>c. c \<notin> set c0_control_or_space) raw"
  shows "urlparse raw =
     (let pre = takeWhile (\<lambda>c. c \<noteq> CHR '':'') raw;
          has_scheme = (length pre < length raw \<and> pre \<noteq> [] \<and> is_alpha (hd pre)
                        \<and> list_all scheme_char pre);
          scheme = (if has_scheme then map lower_char pre else []);
          rest = (if has_scheme then drop (Suc (length pre)) raw else raw);
          netloc = (if take 2 rest = ''//''
                    then takeWhile (\<lambda>c. c \<notin> set ''/?#'') (drop 2 rest) else [])
      in if (CHR ''['' \<in> set netloc) \<noteq> (CHR '']'' \<in> set netloc)
         then Inl (Exception ''Invalid IPv6 URL'')
         else Inr (scheme, netloc))"
proof -
  have "dropWhile (\<lambda>c. c \<in> set c0_control_or_space) raw = raw"
    using assms by (cases raw) simp_all
  moreover have "set unsafe_url_bytes \<subseteq> set c0_control_or_space"
    by (simp add: unsafe_url_bytes_def c0_control_or_space_def)
  then have "filter (\<lambda>c. c \<notin> set unsafe_url_bytes) raw = raw"
    using assms by (auto simp: list_all_iff filter_id_conv)
  ultimately show ?thesis
    by (simp add: urlparse_def)
qed

text \<open>Leading blanks and embedded line breaks do not reach the parse.\<close>

lemma urlparse_cleans:
  "urlparse ('' '' @ [CHR 0x09] @ ''ht'' @ [CHR 0x0A] @ ''tps://open.spotify.com/artist/X'')
     = Inr (''https'', ''open.spotify.com'')"
  by (simp add: urlparse_def c0_control_or_space_def unsafe_url_bytes_def Let_def is_alpha_def
        scheme_char_def ascii_lower_def ascii_upper_def ascii_digits_def lower_char_def)

lemmas url_defs = is_valid_url_def urlparse_plain c0_control_or_space_def
  Let_def is_alpha_def scheme_char_def
  word_char_def ascii_lower_def ascii_upper_def ascii_digits_def lower_char_def

lemma str_contains_sublist: "str_contains d s = sublist d s"
proof (induction s)
  case Nil
  then show ?case by auto
next
  case (Cons c cs)
  have "(take (length d) (c # cs) = d) = prefix d (c # cs)"
    by (metis prefix_def append_eq_conv_conj take_is_prefix)
  with Cons show ?case by (simp add: sublist_Cons_right)
qed

lemma is_valid_url_iff:
  "is_valid_url url allowed =
     (\<exists>scheme netloc. urlparse url = Inr (scheme, netloc) \<and> scheme \<noteq> [] \<and> netloc \<noteq> []
        \<and> (\<exists>d \<in> set allowed. sublist d netloc))"
  by (auto simp: is_valid_url_def list_ex_iff str_contains_sublist split: sum.splits)

text \<open>
  Claim C9. \<^verbatim>\<open>is_valid_url\<close> accepts any URL whose network location contains an allow-listed
  domain as a substring, whether or not it is that host: with a scheme and a network
  location present, one allowed domain occurring inside the network location is enough.
  The network location \<^verbatim>\<open>open.spotify.com.attacker.example\<close> is accepted in this way.
\<close>
theorem substring_accepted:
  assumes "urlparse url = Inr (scheme, netloc)" and "scheme \<noteq> []" and "netloc \<noteq> []"
    and "domain \<in> set allowed_domains" and "sublist domain netloc"
  shows "is_valid_url url allowed_domains"
  using assms by (auto simp: is_valid_url_iff)

theorem substring_accepted_witness:
  "urlparse ''https://open.spotify.com.attacker.example/artist/ABC123''
     = Inr (''https'', ''open.spotify.com.attacker.example'')
   \<and> ''open.spotify.com.attacker.example'' \<noteq> ''open.spotify.com''
   \<and> sublist ''open.spotify.com'' ''open.spotify.com.attacker.example''
   \<and> is_valid_url ''https://open.spotify.com.attacker.example/artist/ABC123''
        [''open.spotify.com'']"
proof -
  have h1: "urlparse ''https://open.spotify.com.attacker.example/artist/ABC123''
     = Inr (''https'', ''open.spotify.com.attacker.example'')"
    by (simp add: url_defs)
  have h2: "sublist ''open.spotify.com'' ''open.spotify.com.attacker.example''"
    by (simp add: str_contains_sublist [symmetric])
  have h3: "''open.spotify.com.attacker.example'' \<noteq> ''open.spotify.com''"
    by simp
  have "is_valid_url ''https://open.spotify.com.attacker.example/artist/ABC123''
        [''open.spotify.com'']"
    by (rule substring_accepted [OF h1 _ _ _ h2]) simp_all
  with h1 h2 h3 show ?thesis by blast
qed

text \<open>
  Claim C7, as amended. The identifier extracted from
  \<^verbatim>\<open>https://open.spotify.com/artist/ABC123\<close> is \<^verbatim>\<open>ABC123\<close>. A URL whose network location
  contains no allow-listed domain as a substring, such as
  \<^verbatim>\<open>https://example.com/artist/ABC123\<close>, is not valid, and \<^verbatim>\<open>run\<close> answers a link that is
  not valid with the log line and the finished signal alone: no collaborator is called
  and nothing else in the state changes.
\<close>
theorem seed_url_checked:
  "search_artist_id ''https://open.spotify.com/artist/ABC123'' = Some ''ABC123''
   \<and> \<not> is_valid_url ''https://example.com/artist/ABC123'' [''open.spotify.com'']
   \<and> (urlparse url = Inr (scheme, netloc) \<and> (\<forall>d \<in> set allowed. \<not> sublist d netloc)
        \<longrightarrow> \<not> is_valid_url url allowed)
   \<and> (\<not> is_valid_url (spotify_link st) [''open.spotify.com'']
        \<longrightarrow> run env st =
              Some (st\<lparr>trace := trace st @
                [Output ''Invalid Spotify URL. Please provide a valid Spotify artist link.'',
                 Finished]\<rparr>))"
proof -
  have "search_artist_id ''https://open.spotify.com/artist/ABC123'' = Some ''ABC123''"
    by (simp add: word_char_def ascii_lower_def ascii_upper_def ascii_digits_def)
  moreover have "\<not> is_valid_url ''https://example.com/artist/ABC123'' [''open.spotify.com'']"
    by (simp add: url_defs)
  moreover have "\<not> is_valid_url url allowed"
    if "urlparse url = Inr (scheme, netloc)" "\<forall>d \<in> set allowed. \<not> sublist d netloc"
    using that by (auto simp: is_valid_url_iff)
  moreover have "run env st =
              Some (st\<lparr>trace := trace st @
                [Output ''Invalid Spotify URL. Please provide a valid Spotify artist link.'',
                 Finished]\<rparr>)"
    if "\<not> is_valid_url (spotify_link st) [''open.spotify.com'']"
    using that by (simp add: run_def emit_def)
  ultimately show ?thesis by blast
qed

theorem seed_url_checked_witness:
  "urlparse ''https://example.com/artist/ABC123'' = Inr (''https'', ''example.com'')
   \<and> \<not> sublist ''open.spotify.com'' ''example.com''
   \<and> \<not> is_valid_url ''https://example.com/artist/ABC123'' [''open.spotify.com'']
   \<and> map_option trace
         (run demo_services (init ''https://example.com/artist/ABC123'' 10 2 False False 3 5))
       = Some [Output ''Invalid Spotify URL. Please provide a valid Spotify artist link.'',
               Finished]"
proof -
  let ?st = "init ''https://example.com/artist/ABC123'' 10 2 False False 3 5"
  have h1: "urlparse ''https://example.com/artist/ABC123'' = Inr (''https'', ''example.com'')"
    by (simp add: url_defs)
  have h2: "\<not> sublist ''open.spotify.com'' ''example.com''"
    by (simp add: str_contains_sublist [symmetric])
  have h2': "\<forall>d \<in> set [''open.spotify.com'']. \<not> sublist d ''example.com''"
    using h2 by simp
  note inst = seed_url_checked [of "''https://example.com/artist/ABC123''" "''https''"
      "''example.com''" "[''open.spotify.com'']" ?st demo_services]
  from inst h1 h2' have h3: "\<not> is_valid_url ''https://example.com/artist/ABC123'' [''open.spotify.com'']"
    by blast
  have link: "spotify_link ?st = ''https://example.com/artist/ABC123''"
    by (simp add: init_def)
  from inst h3 have "run demo_services ?st =
              Some (?st\<lparr>trace := trace ?st @
                [Output ''Invalid Spotify URL. Please provide a valid Spotify artist link.'',
                 Finished]\<rparr>)"
    unfolding link by blast
  then have "map_option trace (run demo_services ?st)
       = Some [Output ''Invalid Spotify URL. Please provide a valid Spotify artist link.'',
               Finished]"
    by (simp add: init_def)
  with h1 h2 h3 show ?thesis by blast
qed

text \<open>
  The claim as stated rejects every URL whose domain is not on the allow list. The host
  \<^verbatim>\<open>open.spotify.com.example.org\<close> is not on the list, yet the link is valid and \<^verbatim>\<open>run\<close> goes
  on to look the artist up on the source catalog.
\<close>

theorem foreign_host_accepted:
  "urlparse ''https://open.spotify.com.example.org/artist/ABC123''
     = Inr (''https'', ''open.spotify.com.example.org'')
   \<and> ''open.spotify.com.example.org'' \<notin> set [''open.spotify.com'']
   \<and> is_valid_url ''https://open.spotify.com.example.org/artist/ABC123'' [''open.spotify.com'']
   \<and> map_option trace
         (run demo_services
            (init ''https://open.spotify.com.example.org/artist/ABC123'' 10 2 False False 3 5))
       = Some [Call_sp_artist ''ABC123'', Output ''An error occurred: not found'', Finished]"
  by (simp add: url_defs run_def run_failed_def emit_def init_def demo_services_def)

section \<open>The wildly different selection\<close>

lemma length_sample_from: "length (sample_from picks pool k) = min k (length pool)"
proof (induction k arbitrary: picks pool)
  case 0
  show ?case by simp
next
  case (Suc k)
  show ?case
  proof (cases "pool = []")
    case True
    then show ?thesis by simp
  next
    case False
    define i where "i = (case picks of [] \<Rightarrow> 0 | p # _ \<Rightarrow> p mod length pool)"
    define rest where "rest = take i pool @ drop (Suc i) pool"
    from False have "i < length pool"
      by (simp add: i_def split: list.splits)
    then have rest: "length rest = length pool - 1"
      by (simp add: rest_def)
    have "sample_from picks pool (Suc k) = pool ! i # sample_from (tl picks) rest k"
      using False by (simp add: Let_def i_def rest_def)
    then have "length (sample_from picks pool (Suc k)) = Suc (min k (length pool - 1))"
      by (simp only: list.size Suc.IH rest)
    moreover from False have "0 < length pool"
      by simp
    ultimately show ?thesis
      by arith
  qed
qed

lemma wildly_different_loop_length:
  "int (length kept) < max (related_limit st) 1 \<Longrightarrow>
     int (length (fst (wildly_different_loop env rs kept st))) \<le> max (related_limit st) 1"
proof (induction rs arbitrary: kept st)
  case Nil
  then show ?case by simp
next
  case (Cons r rs)
  show ?case
  proof (cases "sp_artist env (rel_id r)")
    case (Inl e)
    with Cons.prems Cons.IH [of kept "emit (Output (''Error processing related artist '' @ rel_name r @ '': '' @ message e)) (emit (Call_sp_artist (rel_id r)) st)"]
    show ?thesis by (simp add: Let_def)
  next
    case (Inr full)
    define st1 where "st1 = emit (Call_sp_artist (rel_id r)) st"
    define new_genres where "new_genres = fset_of_list (sp_genres full) |-| processed_genres st1"
    define kept1 where "kept1 = (if new_genres \<noteq> {||} then kept @ [r] else kept)"
    define st2 where "st2 = (if new_genres \<noteq> {||}
                      then st1\<lparr>processed_genres := processed_genres st1 |\<union>| new_genres\<rparr>
                      else st1)"
    have lim: "related_limit st2 = related_limit st"
      by (simp add: st2_def st1_def)
    have unfold: "wildly_different_loop env (r # rs) kept st =
        (if related_limit st2 \<le> int (length kept1) then (kept1, st2)
         else wildly_different_loop env rs kept1 st2)"
      unfolding st2_def kept1_def new_genres_def st1_def
      by (simp add: Inr Let_def)
    have len: "int (length kept1) \<le> max (related_limit st) 1"
      using Cons.prems by (simp add: kept1_def)
    show ?thesis
    proof (cases "related_limit st2 \<le> int (length kept1)")
      case True
      with len show ?thesis
        unfolding unfold by simp
    next
      case False
      then have "int (length kept1) < max (related_limit st2) 1"
        by simp
      from Cons.IH [OF this] False show ?thesis
        unfolding unfold by (simp add: lim)
    qed
  qed
qed

text \<open>
  Claim C6, as amended. For every source artist, candidate list and related limit \<open>N\<close>,
  \<^verbatim>\<open>get_wildly_different_artists\<close> returns, and never with the ValueError of a sample request
  that is negative or larger than the pool of candidates not kept; it returns at most
  \<open>max(N, 1)\<close> artists, which is at most \<open>N\<close> whenever \<open>N\<close> is at least 1.
\<close>
theorem wildly_different_bound:
  "\<exists>res. fst (get_wildly_different_artists env source related st) = Inr res
          \<and> int (length res) \<le> max (related_limit st) 1"
proof -
  define st0 where "st0 = st\<lparr>processed_genres :=
                     processed_genres st |\<union>| fset_of_list (sp_genres source)\<rparr>"
  define kept where "kept = fst (wildly_different_loop env related [] st0)"
  define st1 where "st1 = snd (wildly_different_loop env related [] st0)"
  define remaining where "remaining = filter (\<lambda>a. a \<notin> set kept) related"
  define k where "k = min (int (length remaining)) (related_limit st1 - int (length kept))"
  have lim: "related_limit st1 = related_limit st"
    by (simp add: st1_def st0_def)
  have unfold: "get_wildly_different_artists env source related st =
      (if int (length kept) < related_limit st1
       then (case random_sample (sample_picks env) remaining k of
               Inl e \<Rightarrow> (Inl e, st1)
             | Inr extra \<Rightarrow> (Inr (kept @ extra), st1))
       else (Inr kept, st1))"
    unfolding get_wildly_different_artists_def k_def remaining_def st1_def kept_def st0_def
      Let_def split_beta
    by simp
  have "int (length ([] :: related_artist list)) < max (related_limit st0) 1"
    by simp
  from wildly_different_loop_length [OF this, of env related]
  have len: "int (length kept) \<le> max (related_limit st) 1"
    by (simp add: kept_def st0_def)
  show ?thesis
  proof (cases "int (length kept) < related_limit st1")
    case False
    with len show ?thesis
      unfolding unfold by simp
  next
    case True
    then have range: "0 \<le> k" "k \<le> int (length remaining)"
      by (simp_all add: k_def)
    then have sample: "random_sample (sample_picks env) remaining k
        = Inr (sample_from (sample_picks env) remaining (nat k))"
      by (simp add: random_sample_def)
    have "int (length (kept @ sample_from (sample_picks env) remaining (nat k)))
            \<le> related_limit st"
      using True range by (simp add: length_sample_from k_def lim)
    with True show ?thesis
      unfolding unfold by (simp add: sample)
  qed
qed


lemmas wd_defs = get_wildly_different_artists_def random_sample_def emit_def init_def Let_def
  demo_services_def demo_downloader_def zero_limit_downloader_def genre_services_def
  pop_downloader_def candidate_def finsert_fminus_if

theorem wildly_different_bound_witness:
  "fst (get_wildly_different_artists demo_services \<lparr>sp_name = ''Root'', sp_genres = [''pop'']\<rparr>
          [candidate ''A'', candidate ''B''] demo_downloader)
     = Inr [candidate ''A'', candidate ''B'']
   \<and> (\<exists>res. fst (get_wildly_different_artists demo_services
                    \<lparr>sp_name = ''Root'', sp_genres = [''pop'']\<rparr>
                    [candidate ''A'', candidate ''B''] demo_downloader) = Inr res
          \<and> int (length res) \<le> max (related_limit demo_downloader) 1)"
proof -
  have "fst (get_wildly_different_artists demo_services \<lparr>sp_name = ''Root'', sp_genres = [''pop'']\<rparr>
          [candidate ''A'', candidate ''B''] demo_downloader)
     = Inr [candidate ''A'', candidate ''B'']"
    by (simp add: wd_defs)
  with wildly_different_bound [of demo_services "\<lparr>sp_name = ''Root'', sp_genres = [''pop'']\<rparr>"
      "[candidate ''A'', candidate ''B'']" demo_downloader]
  show ?thesis by blast
qed

text \<open>
  The claim as stated bounds the result by \<open>N\<close> for every configuration. With \<open>N = 0\<close> the
  loop tests the limit only after it has kept the first candidate with a new genre, and
  the function returns that one candidate.
\<close>

theorem one_relative_at_limit_zero:
  "related_limit zero_limit_downloader = 0
   \<and> fst (get_wildly_different_artists demo_services \<lparr>sp_name = ''Root'', sp_genres = [''pop'']\<rparr>
          [candidate ''A''] zero_limit_downloader)
     = Inr [candidate ''A'']"
  by (simp add: wd_defs)

lemma pop_only: "set xs \<subseteq> {''pop''} \<Longrightarrow> fset_of_list xs |\<subseteq>| {|''pop''|}"
  by (induction xs) auto

lemma sample_from_single: "i < length pool \<Longrightarrow> sample_from [i] pool 1 = [pool ! i]"
  by (cases pool) (simp_all add: Let_def)

lemma differ_by_genres:
  "sp_artist env (rel_id c) = Inr a \<Longrightarrow> sp_artist env (rel_id c') = Inr a' \<Longrightarrow>
     fset_of_list (sp_genres a) \<noteq> fset_of_list (sp_genres a') \<Longrightarrow> c \<noteq> c'"
  by auto

text \<open>
  Claim C5. With related limit 3, five candidates whose genre sets are pop, pop, rock,
  jazz, pop, and the genre pop already seen (the source artist adding nothing but pop),
  \<^verbatim>\<open>get_wildly_different_artists\<close> keeps candidates 3 and 4 and tops up with one artist drawn
  from the candidates 1, 2 and 5: three artists in all. Which of the three is drawn is the
  generator's first pick modulo 3, so every one of them can be drawn.
\<close>
theorem wildly_different_example:
  assumes "related_limit st = 3" and "processed_genres st = {|''pop''|}"
    and "set (sp_genres source) \<subseteq> {''pop''}"
    and "sp_artist env (rel_id c1) = Inr a1" and "fset_of_list (sp_genres a1) = {|''pop''|}"
    and "sp_artist env (rel_id c2) = Inr a2" and "fset_of_list (sp_genres a2) = {|''pop''|}"
    and "sp_artist env (rel_id c3) = Inr a3" and "fset_of_list (sp_genres a3) = {|''rock''|}"
    and "sp_artist env (rel_id c4) = Inr a4" and "fset_of_list (sp_genres a4) = {|''jazz''|}"
    and "sp_artist env (rel_id c5) = Inr a5" and "fset_of_list (sp_genres a5) = {|''pop''|}"
  shows "fst (get_wildly_different_artists env source [c1, c2, c3, c4, c5] st)
           = Inr [c3, c4, [c1, c2, c5] ! (case sample_picks env of [] \<Rightarrow> 0 | p # _ \<Rightarrow> p mod 3)]"
proof -
  define st0 where "st0 = st\<lparr>processed_genres :=
                     processed_genres st |\<union>| fset_of_list (sp_genres source)\<rparr>"
  have st0: "processed_genres st0 = {|''pop''|}" "related_limit st0 = 3"
    using assms(1-3) by (simp_all add: st0_def pop_only)
  have differ: "c1 \<noteq> c3" "c1 \<noteq> c4" "c2 \<noteq> c3" "c2 \<noteq> c4" "c5 \<noteq> c3" "c5 \<noteq> c4"
    using differ_by_genres [OF assms(4) assms(8)] differ_by_genres [OF assms(4) assms(10)]
      differ_by_genres [OF assms(6) assms(8)] differ_by_genres [OF assms(6) assms(10)]
      differ_by_genres [OF assms(12) assms(8)] differ_by_genres [OF assms(12) assms(10)]
    by (simp_all add: assms(5,7,9,11,13))
  have loop: "fst (wildly_different_loop env [c1, c2, c3, c4, c5] [] st0) = [c3, c4]"
    "related_limit (snd (wildly_different_loop env [c1, c2, c3, c4, c5] [] st0)) = 3"
    using assms(4-13) st0 by (simp_all add: Let_def finsert_fminus_if)
  have "fst (get_wildly_different_artists env source [c1, c2, c3, c4, c5] st)
      = Inr ([c3, c4] @ sample_from (sample_picks env) [c1, c2, c5] 1)"
    unfolding get_wildly_different_artists_def Let_def split_beta st0_def [symmetric]
    using differ
    by (simp add: loop st0 random_sample_def Let_def del: wildly_different_loop.simps)
  also have "sample_from (sample_picks env) [c1, c2, c5] 1
      = [[c1, c2, c5] ! (case sample_picks env of [] \<Rightarrow> 0 | p # _ \<Rightarrow> p mod 3)]"
    by (simp add: Let_def split: list.splits)
  finally show ?thesis by simp
qed

theorem wildly_different_example_witness:
  "related_limit pop_downloader = 3 \<and> processed_genres pop_downloader = {|''pop''|}
   \<and> sp_artist genre_services ''1'' = Inr \<lparr>sp_name = ''Other'', sp_genres = [''pop'']\<rparr>
   \<and> sp_artist genre_services ''2'' = Inr \<lparr>sp_name = ''Other'', sp_genres = [''pop'']\<rparr>
   \<and> sp_artist genre_services ''3'' = Inr \<lparr>sp_name = ''Three'', sp_genres = [''rock'']\<rparr>
   \<and> sp_artist genre_services ''4'' = Inr \<lparr>sp_name = ''Four'', sp_genres = [''jazz'']\<rparr>
   \<and> sp_artist genre_services ''5'' = Inr \<lparr>sp_name = ''Other'', sp_genres = [''pop'']\<rparr>
   \<and> fst (get_wildly_different_artists genre_services \<lparr>sp_name = ''Root'', sp_genres = [''pop'']\<rparr>
          [candidate ''1'', candidate ''2'', candidate ''3'', candidate ''4'', candidate ''5'']
          pop_downloader)
       = Inr [candidate ''3'', candidate ''4'', candidate ''2'']"
proof -
  have h1: "related_limit pop_downloader = 3" and h2: "processed_genres pop_downloader = {|''pop''|}"
    by (simp_all add: pop_downloader_def init_def)
  have h3: "set (sp_genres \<lparr>sp_name = ''Root'', sp_genres = [''pop'']\<rparr>) \<subseteq> {''pop''}"
    by simp
  have a1: "sp_artist genre_services (rel_id (candidate ''1''))
              = Inr \<lparr>sp_name = ''Other'', sp_genres = [''pop'']\<rparr>"
    and a2: "sp_artist genre_services (rel_id (candidate ''2''))
              = Inr \<lparr>sp_name = ''Other'', sp_genres = [''pop'']\<rparr>"
    and a3: "sp_artist genre_services (rel_id (candidate ''3''))
              = Inr \<lparr>sp_name = ''Three'', sp_genres = [''rock'']\<rparr>"
    and a4: "sp_artist genre_services (rel_id (candidate ''4''))
              = Inr \<lparr>sp_name = ''Four'', sp_genres = [''jazz'']\<rparr>"
    and a5: "sp_artist genre_services (rel_id (candidate ''5''))
              = Inr \<lparr>sp_name = ''Other'', sp_genres = [''pop'']\<rparr>"
    by (simp_all add: genre_services_def candidate_def)
  have g1: "fset_of_list (sp_genres \<lparr>sp_name = ''Other'', sp_genres = [''pop'']\<rparr>) = {|''pop''|}"
    and g3: "fset_of_list (sp_genres \<lparr>sp_name = ''Three'', sp_genres = [''rock'']\<rparr>) = {|''rock''|}"
    and g4: "fset_of_list (sp_genres \<lparr>sp_name = ''Four'', sp_genres = [''jazz'']\<rparr>) = {|''jazz''|}"
    by simp_all
  have pick: "sample_picks genre_services = [1]"
    by (simp add: genre_services_def)
  from wildly_different_example [OF h1 h2 h3 a1 g1 a2 g1 a3 g3 a4 g4 a5 g1]
  have "fst (get_wildly_different_artists genre_services \<lparr>sp_name = ''Root'', sp_genres = [''pop'']\<rparr>
          [candidate ''1'', candidate ''2'', candidate ''3'', candidate ''4'', candidate ''5'']
          pop_downloader)
       = Inr [candidate ''3'', candidate ''4'', candidate ''2'']"
    by (simp add: pick)
  with h1 h2 a1 a2 a3 a4 a5 show ?thesis
    by (simp add: candidate_def)
qed

section \<open>Cancellation and duplicates\<close>

text \<open>\<^verbatim>\<open>stop\<close> commutes with every step of a worker: no step reads or writes the flag.\<close>

lemma stop_fields [simp]:
  "is_running (stop st) = False"
  "spotify_link (stop st) = spotify_link st"
  "max_artists (stop st) = max_artists st"
  "max_concurrent (stop st) = max_concurrent st"
  "wild_branching (stop st) = wild_branching st"
  "wildly_different (stop st) = wildly_different st"
  "max_depth (stop st) = max_depth st"
  "related_limit (stop st) = related_limit st"
  "processed_artists (stop st) = processed_artists st"
  "artist_queue (stop st) = artist_queue st"
  "root_node (stop st) = root_node st"
  "processed_genres (stop st) = processed_genres st"
  "store (stop st) = store st"
  "next_ref (stop st) = next_ref st"
  "trace (stop st) = trace st"
  by (simp_all add: stop_def)

lemma stop_updates:
  "(stop st)\<lparr>processed_genres := g\<rparr> = stop (st\<lparr>processed_genres := g\<rparr>)"
  "(stop st)\<lparr>processed_artists := p\<rparr> = stop (st\<lparr>processed_artists := p\<rparr>)"
  "(stop st)\<lparr>store := s\<rparr> = stop (st\<lparr>store := s\<rparr>)"
  "(stop st)\<lparr>artist_queue := q\<rparr> = stop (st\<lparr>artist_queue := q\<rparr>)"
  "(stop st)\<lparr>next_ref := n\<rparr> = stop (st\<lparr>next_ref := n\<rparr>)"
  "(stop st)\<lparr>store := s, next_ref := n\<rparr> = stop (st\<lparr>store := s, next_ref := n\<rparr>)"
  by (simp_all add: stop_def)

lemma emit_stop: "emit e (stop st) = stop (emit e st)"
  by (simp add: emit_def stop_def)

lemma new_node_stop: "new_node sid nm d (stop st) = apsnd stop (new_node sid nm d st)"
  by (simp add: new_node_def stop_updates)

lemma wildly_different_loop_stop:
  "wildly_different_loop env rs kept (stop st) = apsnd stop (wildly_different_loop env rs kept st)"
proof (induction rs arbitrary: kept st)
  case Nil
  show ?case by simp
next
  case (Cons r rs)
  show ?case
    by (simp add: Let_def emit_stop stop_updates Cons.IH split: sum.splits)
qed

lemma get_wildly_different_artists_stop:
  "get_wildly_different_artists env src rs (stop st)
     = apsnd stop (get_wildly_different_artists env src rs st)"
  unfolding get_wildly_different_artists_def Let_def split_beta
  by (simp add: stop_updates wildly_different_loop_stop split: sum.splits)

lemma find_deezer_artist_stop:
  "find_deezer_artist env nm (stop st) = apsnd stop (find_deezer_artist env nm st)"
  by (simp add: find_deezer_artist_def Let_def emit_stop split: sum.splits list.splits)

lemma download_artist_stop:
  "download_artist env d node (stop st) = apsnd stop (download_artist env d node st)"
  by (simp add: download_artist_def emit_stop split: launch.splits)

lemma add_children_stop: "add_children node rs (stop st) = stop (add_children node rs st)"
proof (induction rs arbitrary: st)
  case Nil
  show ?case by simp
next
  case (Cons r rs)
  show ?case
    by (simp add: Let_def split_beta new_node_stop stop_updates Cons.IH)
qed

lemma enqueue_related_stop:
  "enqueue_related env a node (stop st) = apsnd stop (enqueue_related env a node st)"
  unfolding enqueue_related_def Let_def split_beta
  by (simp add: emit_stop get_wildly_different_artists_stop add_children_stop
        split: sum.splits)

lemma report_error_stop: "report_error node e (stop st) = stop (report_error node e st)"
  by (simp add: report_error_def emit_stop)

lemma process_admitted_stop:
  "process_admitted env node (stop st) = stop (process_admitted env node st)"
  unfolding process_admitted_def Let_def split_beta
  by (simp add: emit_stop find_deezer_artist_stop download_artist_stop enqueue_related_stop
        report_error_stop stop_updates split: sum.splits option.splits)

lemma check_and_insert_stop:
  "check_and_insert node (stop st) = apsnd stop (check_and_insert node st)"
  by (simp add: check_and_insert_def stop_updates)

lemma process_artist_stop: "process_artist env node (stop st) = stop (process_artist env node st)"
  by (simp add: process_artist_def check_and_insert_stop process_admitted_stop split_beta
        split: bool.splits)

lemma process_batch_stop: "process_batch env nodes (stop st) = stop (process_batch env nodes st)"
  by (induction nodes arbitrary: st) (simp_all add: process_artist_stop)


lemma dispatch_loop_stopped: "\<not> is_running st \<Longrightarrow> dispatch_loop env st = Some st"
  by (subst dispatch_loop.simps) simp

text \<open>
  What the code does on cancellation: with the flag cleared the loop returns at once with
  the queue as it is, and the workers of a batch that are still running when the request
  arrives (\<open>in_flight\<close>, with whatever answers the collaborators then give) leave the trace
  and the state they would have left without the request, apart from the flag.
\<close>

lemma stop_during_batch:
  "dispatch_loop env (stop st) = Some (stop st)
   \<and> process_batch env' in_flight (stop st) = stop (process_batch env' in_flight st)
   \<and> trace (process_batch env' in_flight (stop st)) = trace (process_batch env' in_flight st)
   \<and> dispatch_loop env (process_batch env' in_flight (stop st))
       = Some (stop (process_batch env' in_flight st))"
proof -
  have "dispatch_loop env (stop s) = Some (stop s)" for s
    by (rule dispatch_loop_stopped) simp
  then show ?thesis
    by (simp add: process_batch_stop)
qed

text \<open>
  Claim C8. When cancellation is requested mid-run, the driver, which tests the flag at
  the top of each loop iteration, dispatches no new batch, while every artist already
  dispatched runs to completion and still has its outcome reported before the run stops.

  The demo downloader has processed the batch of A and B, which put two nodes for C
  (addresses 2 and 3) on the queue. The driver takes both off the queue as the next batch
  and the request arrives. The loop then returns without dispatching anything further,
  and the artists in flight do run to completion: the node for C at address 2 passes the
  check and its name search finds no match. But what it leaves is a log line: the trace
  at the end of the loop holds the finished events of A and B and none for C.
\<close>

theorem in_flight_without_finished_event:
  "artist_queue (process_batch demo_services [0, 1] siblings_downloader) = [2, 3]
   \<and> fst (check_and_insert 2
           (stop ((process_batch demo_services [0, 1] siblings_downloader)
                    \<lparr>artist_queue := []\<rparr>)))
   \<and> map_option trace
         (dispatch_loop demo_services
            (process_batch demo_services [2, 3]
               (stop ((process_batch demo_services [0, 1] siblings_downloader)
                        \<lparr>artist_queue := []\<rparr>))))
       = Some [Call_sp_artist ''A'', Call_dz_search ''Aa'', Call_deemix ''7'',
               Output ''Successfully downloaded artist: Aa'', Progress 100 ''Aa'',
               ArtistFinished ''Aa|A|7'' True, Call_sp_related ''A'', TreeUpdated None,
               Call_sp_artist ''B'', Call_dz_search ''Bb'', Call_deemix ''7'',
               Output ''Successfully downloaded artist: Bb'', Progress 100 ''Bb'',
               ArtistFinished ''Bb|B|7'' True, Call_sp_related ''B'', TreeUpdated None,
               Call_sp_artist ''C'', Call_dz_search ''Cc'',
               Output ''Could not find Deezer artist for: Cc'']
   \<and> map_option artist_queue
         (dispatch_loop demo_services
            (process_batch demo_services [2, 3]
               (stop ((process_batch demo_services [0, 1] siblings_downloader)
                        \<lparr>artist_queue := []\<rparr>))))
       = Some []"
proof -
  let ?st = "(process_batch demo_services [0, 1] siblings_downloader)\<lparr>artist_queue := []\<rparr>"
  have "dispatch_loop demo_services (process_batch demo_services [2, 3] (stop ?st))
          = Some (process_batch demo_services [2, 3] (stop ?st))"
    by (rule dispatch_loop_stopped) (simp add: process_batch_stop)
  moreover have "artist_queue (process_batch demo_services [0, 1] siblings_downloader) = [2, 3]"
    by (simp add: eval_defs)
  moreover have "fst (check_and_insert 2 (stop ?st))"
    by (simp add: check_and_insert_stop) (simp add: eval_defs)
  moreover have "trace (process_batch demo_services [2, 3] ?st)
       = [Call_sp_artist ''A'', Call_dz_search ''Aa'', Call_deemix ''7'',
               Output ''Successfully downloaded artist: Aa'', Progress 100 ''Aa'',
               ArtistFinished ''Aa|A|7'' True, Call_sp_related ''A'', TreeUpdated None,
               Call_sp_artist ''B'', Call_dz_search ''Bb'', Call_deemix ''7'',
               Output ''Successfully downloaded artist: Bb'', Progress 100 ''Bb'',
               ArtistFinished ''Bb|B|7'' True, Call_sp_related ''B'', TreeUpdated None,
               Call_sp_artist ''C'', Call_dz_search ''Cc'',
               Output ''Could not find Deezer artist for: Cc'']"
    "artist_queue (process_batch demo_services [2, 3] ?st) = []"
    by (simp_all add: eval_defs)
  ultimately show ?thesis
    by (simp add: process_batch_stop)
qed

text \<open>
  Claim C10. The same identifier can be enqueued more than once and be a child of several
  parents: every selected relative gets a fresh node on the queue, whatever the processed
  set holds, and de-duplication happens only at dispatch, where \<^verbatim>\<open>process_artist\<close> returns
  the state unchanged (no event, no change to the tree or the processed set) for an
  identifier already processed. In the demo catalog C is a relative of both A and B; it is
  enqueued under B although it was processed before.
\<close>
theorem duplicate_children:
  "(spotify_id (store st node) |\<in>| processed_artists st \<longrightarrow> process_artist env node st = st)
   \<and> artist_queue (add_children node rs st)
       = artist_queue st @ [next_ref st ..< next_ref st + length rs]
   \<and> ''C'' |\<in>| processed_artists
                 (process_calls [(demo_services, 0), (demo_services, 2)] siblings_downloader)
   \<and> artist_queue (process_calls [(demo_services, 0), (demo_services, 2), (demo_services, 1)]
                      siblings_downloader) = [2, 3]
   \<and> spotify_id (store (process_calls [(demo_services, 0), (demo_services, 2),
                                        (demo_services, 1)] siblings_downloader) 2) = ''C''
   \<and> spotify_id (store (process_calls [(demo_services, 0), (demo_services, 2),
                                        (demo_services, 1)] siblings_downloader) 3) = ''C''
   \<and> children (store (process_calls [(demo_services, 0), (demo_services, 2),
                                      (demo_services, 1)] siblings_downloader) 0) = [2]
   \<and> children (store (process_calls [(demo_services, 0), (demo_services, 2),
                                      (demo_services, 1)] siblings_downloader) 1) = [3]"
proof -
  have "process_artist env node st = st" if "spotify_id (store st node) |\<in>| processed_artists st"
    using that by (simp add: process_artist_refused check_and_insert_fst)
  moreover have "''C'' |\<in>| processed_artists
                 (process_calls [(demo_services, 0), (demo_services, 2)] siblings_downloader)"
    "artist_queue (process_calls [(demo_services, 0), (demo_services, 2), (demo_services, 1)]
                      siblings_downloader) = [2, 3]"
    "spotify_id (store (process_calls [(demo_services, 0), (demo_services, 2),
                                        (demo_services, 1)] siblings_downloader) 2) = ''C''"
    "spotify_id (store (process_calls [(demo_services, 0), (demo_services, 2),
                                        (demo_services, 1)] siblings_downloader) 3) = ''C''"
    "children (store (process_calls [(demo_services, 0), (demo_services, 2),
                                      (demo_services, 1)] siblings_downloader) 0) = [2]"
    "children (store (process_calls [(demo_services, 0), (demo_services, 2),
                                      (demo_services, 1)] siblings_downloader) 1) = [3]"
    by (simp_all add: eval_defs)
  ultimately show ?thesis
    using add_children_queue by blast
qed

theorem duplicate_children_witness:
  "spotify_id (store (process_calls [(demo_services, 0), (demo_services, 2), (demo_services, 1)]
                        siblings_downloader) 3)
     |\<in>| processed_artists (process_calls [(demo_services, 0), (demo_services, 2),
                                             (demo_services, 1)] siblings_downloader)
   \<and> process_artist demo_services 3
        (process_calls [(demo_services, 0), (demo_services, 2), (demo_services, 1)]
           siblings_downloader)
       = process_calls [(demo_services, 0), (demo_services, 2), (demo_services, 1)]
           siblings_downloader"
proof -
  let ?st = "process_calls [(demo_services, 0), (demo_services, 2), (demo_services, 1)]
               siblings_downloader"
  have h: "spotify_id (store ?st 3) |\<in>| processed_artists ?st"
    by (simp add: eval_defs)
  from duplicate_children [of ?st 3 demo_services] h show ?thesis
    by blast
qed

end
